theory Spec2Isabelle
  imports Main
begin

section \<open>The navigation stack of nuclide-navigation-stack\<close>

text \<open>
  A shallow embedding of \<^verbatim>\<open>pkg/nuclide-navigation-stack/lib/NavigationStack.js\<close>.
  The class \<^verbatim>\<open>NavigationStack\<close> keeps an array of locations, the index of the
  current location and an rxjs subject on which every change is published.
\<close>

subsection \<open>Data model\<close>

text \<open>
  An \<^verbatim>\<open>atom$TextEditor\<close> is only compared with \<^verbatim>\<open>===\<close> and asked for its path, so it
  is a handle (the identity of the object); what \<^verbatim>\<open>editor.getPath()\<close> answers at the
  time of a call is a function \<open>getPath\<close> from handles to \<^verbatim>\<open>?string\<close>, given to the two
  methods that call it. An \<^verbatim>\<open>atom$Point\<close> is a row and a column.
\<close>

type_synonym editor = nat
type_synonym point = "int \<times> int"

text \<open>
  What a \<^verbatim>\<open>Location\<close> object holds: the tagged union of
  \<^verbatim>\<open>{type: 'editor', editor, bufferPosition}\<close> and \<^verbatim>\<open>{type: 'uri', uri, bufferPosition}\<close>.
\<close>

datatype location =
    EditorLocation editor point
  | UriLocation string point

fun bufferPosition :: "location \<Rightarrow> point" where
  "bufferPosition (EditorLocation e p) = p"
| "bufferPosition (UriLocation u p) = p"

fun set_bufferPosition :: "location \<Rightarrow> point \<Rightarrow> location" where
  "set_bufferPosition (EditorLocation e q) p = EditorLocation e p"
| "set_bufferPosition (UriLocation u q) p = UriLocation u p"

text \<open>
  The array holds references: \<^verbatim>\<open>push\<close> stores the object it is given, and
  \<^verbatim>\<open>attemptUpdate\<close> assigns to a field of the stored object. A location object is
  therefore its identity together with what it holds. The objects that callers build are
  \<open>Given n\<close>; the objects the class builds itself, in \<^verbatim>\<open>editorOpened\<close> and
  \<^verbatim>\<open>editorClosed\<close>, are \<open>Created k\<close>, numbered by a counter of the state, so that a new
  object is none of the earlier ones. One object can sit in several slots of the array, when
  a caller pushes an object again that it has pushed before or that \<^verbatim>\<open>previous\<close> or
  \<^verbatim>\<open>next\<close> has returned to it: these slots carry one identity, and an assignment to the
  object shows in each of them. Callers do not write to the objects themselves, so an
  object that is pushed again comes with what it holds in the array.
\<close>

datatype obj = Given nat | Created nat

type_synonym location_object = "obj \<times> location"

text \<open>
  The field \<^verbatim>\<open>_elements\<close> is \<open>slots\<close>, the field \<^verbatim>\<open>_index\<close> is \<open>index\<close>; of the subject
  \<^verbatim>\<open>_changes\<close> the state keeps how many values have been published on it; \<open>created\<close>
  counts the objects the class has built.
\<close>

record navigation_stack =
  slots :: "location_object list"
  index :: int
  changes :: nat
  created :: nat

text \<open>What the array shows slot by slot, and which object each slot refers to.\<close>

definition elements :: "navigation_stack \<Rightarrow> location list" where
  "elements s = map snd (slots s)"

definition objects :: "navigation_stack \<Rightarrow> obj list" where
  "objects s = map fst (slots s)"

datatype error = AssertionError

definition MAX_STACK_DEPTH :: nat where
  "MAX_STACK_DEPTH = 100"

subsection \<open>Array primitives\<close>

text \<open>
  \<^verbatim>\<open>array.splice(start)\<close> deletes everything from \<open>start\<close> on; a negative \<open>start\<close>
  counts from the end of the array.
\<close>

definition splice_from :: "int \<Rightarrow> 'a list \<Rightarrow> 'a list" where
  "splice_from start xs =
     (if start < 0 then take (nat (max (int (length xs) + start) 0)) xs
      else take (nat (min start (int (length xs)))) xs)"

text \<open>\<^verbatim>\<open>array.splice(0, 1)\<close> deletes the first element, if there is one.\<close>

definition splice_first :: "'a list \<Rightarrow> 'a list" where
  "splice_first xs = drop 1 xs"

text \<open>
  \<^verbatim>\<open>this._elements.forEach(callback)\<close> visits the indices below the length the array
  had at the start, reads the object that is in the slot at the time of the visit and hands
  it to the callback with its index; the callback's effect on the stack is its result.
\<close>

fun forEach_from ::
  "(location_object \<Rightarrow> nat \<Rightarrow> navigation_stack \<Rightarrow> navigation_stack) \<Rightarrow> nat \<Rightarrow> nat \<Rightarrow>
   navigation_stack \<Rightarrow> navigation_stack" where
  "forEach_from callback 0 i s = s"
| "forEach_from callback (Suc n) i s =
     forEach_from callback n (Suc i) (if i < length (slots s) then callback (slots s ! i) i s else s)"

definition forEach ::
  "(location_object \<Rightarrow> nat \<Rightarrow> navigation_stack \<Rightarrow> navigation_stack) \<Rightarrow>
   navigation_stack \<Rightarrow> navigation_stack" where
  "forEach callback s = forEach_from callback (length (slots s)) 0 s"

text \<open>
  The assignment \<^verbatim>\<open>current.bufferPosition = p\<close> to the object \<open>current\<close>: every slot
  that refers to this object shows the new position.
\<close>

definition assign_bufferPosition :: "obj \<Rightarrow> point \<Rightarrow> location_object list \<Rightarrow> location_object list" where
  "assign_bufferPosition current p xs =
     map (\<lambda>x. if fst x = current then (fst x, set_bufferPosition (snd x) p) else x) xs"

text \<open>An object literal in the class: the next object of its own.\<close>

definition new_object :: "location \<Rightarrow> navigation_stack \<Rightarrow> location_object \<times> navigation_stack" where
  "new_object location s = ((Created (created s), location), s\<lparr>created := Suc (created s)\<rparr>)"

subsection \<open>The methods\<close>

definition new_NavigationStack :: navigation_stack where
  "new_NavigationStack = \<lparr>slots = [], index = -1, changes = 0, created = 0\<rparr>"

definition hasChanged :: "navigation_stack \<Rightarrow> navigation_stack" where
  "hasChanged s = s\<lparr>changes := Suc (changes s)\<rparr>"

definition isEmpty :: "navigation_stack \<Rightarrow> bool" where
  "isEmpty s = (length (slots s) = 0)"

definition hasCurrent :: "navigation_stack \<Rightarrow> bool" where
  "hasCurrent s = (\<not> isEmpty s)"

definition getCurrent :: "navigation_stack \<Rightarrow> error + location_object" where
  "getCurrent s =
     (if index s \<ge> 0 \<and> index s < int (length (slots s))
      then Inr (slots s ! nat (index s))
      else Inl AssertionError)"

definition getCurrentEditor :: "navigation_stack \<Rightarrow> error + editor option" where
  "getCurrentEditor s =
     (if \<not> hasCurrent s then Inr None
      else case getCurrent s of
             Inl err \<Rightarrow> Inl err
           | Inr location \<Rightarrow>
               (case snd location of
                  EditorLocation e p \<Rightarrow> Inr (Some e)
                | UriLocation u p \<Rightarrow> Inr None))"

definition push :: "location_object \<Rightarrow> navigation_stack \<Rightarrow> error + navigation_stack" where
  "push newTop s =
     (let es1 = splice_from (index s + 1) (slots s) @ [newTop];
          es2 = (if length es1 > MAX_STACK_DEPTH then splice_first es1 else es1)
      in if length es2 \<le> MAX_STACK_DEPTH
         then Inr (hasChanged (s\<lparr>slots := es2, index := int (length es2) - 1\<rparr>))
         else Inl AssertionError)"

text \<open>
  \<^verbatim>\<open>newTop\<close> is an \<^verbatim>\<open>EditorLocation\<close>; on a uri location \<^verbatim>\<open>newTop.editor\<close> would be
  \<^verbatim>\<open>undefined\<close>, which is \<^verbatim>\<open>===\<close> to no editor and not to \<^verbatim>\<open>null\<close>.
\<close>

definition attemptUpdate :: "location_object \<Rightarrow> navigation_stack \<Rightarrow> error + navigation_stack" where
  "attemptUpdate newTop s =
     (case getCurrentEditor s of
        Inl err \<Rightarrow> Inl err
      | Inr currentEditor \<Rightarrow>
          (case snd newTop of
             EditorLocation e p \<Rightarrow>
               if currentEditor = Some e
               then (case getCurrent s of
                       Inl err \<Rightarrow> Inl err
                     | Inr current \<Rightarrow>
                         Inr (s\<lparr>slots := assign_bufferPosition (fst current) p (slots s)\<rparr>))
               else push newTop s
           | UriLocation u p \<Rightarrow> push newTop s))"

definition hasNext :: "navigation_stack \<Rightarrow> bool" where
  "hasNext s = (index s + 1 < int (length (slots s)))"

definition hasPrevious :: "navigation_stack \<Rightarrow> bool" where
  "hasPrevious s = (index s > 0)"

definition previous :: "navigation_stack \<Rightarrow> error + (location_object option \<times> navigation_stack)" where
  "previous s =
     (if hasPrevious s
      then (let s1 = s\<lparr>index := index s - 1\<rparr>
            in case getCurrent s1 of
                 Inl err \<Rightarrow> Inl err
               | Inr result \<Rightarrow> Inr (Some result, hasChanged s1))
      else Inr (None, s))"

definition next_nav :: "navigation_stack \<Rightarrow> error + (location_object option \<times> navigation_stack)" where
  "next_nav s =
     (if \<not> hasNext s then Inr (None, s)
      else (let s1 = s\<lparr>index := index s + 1\<rparr>
            in case getCurrent s1 of
                 Inl err \<Rightarrow> Inl err
               | Inr result \<Rightarrow> Inr (Some result, hasChanged s1)))"

definition editorOpened_callback ::
  "editor \<Rightarrow> string \<Rightarrow> location_object \<Rightarrow> nat \<Rightarrow> navigation_stack \<Rightarrow> navigation_stack" where
  "editorOpened_callback ed path location i s =
     (case snd location of
        UriLocation u p \<Rightarrow>
          if u = path
          then (let (made, s1) = new_object (EditorLocation ed (bufferPosition (snd location))) s
                in s1\<lparr>slots := (slots s1)[i := made]\<rparr>)
          else s
      | EditorLocation e p \<Rightarrow> s)"

definition editorOpened :: "(editor \<Rightarrow> string option) \<Rightarrow> editor \<Rightarrow> navigation_stack \<Rightarrow> navigation_stack" where
  "editorOpened getPath ed s =
     (case getPath ed of
        None \<Rightarrow> s
      | Some path \<Rightarrow> forEach (editorOpened_callback ed path) s)"

text \<open>
  \<^verbatim>\<open>filter\<close>: the callback of \<^verbatim>\<open>Array.prototype.filter\<close> sees each object with its
  index, in order, and counts \<^verbatim>\<open>newIndex\<close> down for a rejected one at an index up to
  \<^verbatim>\<open>this._index\<close>. The scan returns the objects kept and the final \<^verbatim>\<open>newIndex\<close>. The
  predicate is a function of what the location holds.
\<close>

fun filter_scan ::
  "(location \<Rightarrow> bool) \<Rightarrow> int \<Rightarrow> int \<Rightarrow> location_object list \<Rightarrow> int \<Rightarrow> location_object list \<times> int" where
  "filter_scan predicate this_index i [] newIndex = ([], newIndex)"
| "filter_scan predicate this_index i (location # rest) newIndex =
     (let result = predicate (snd location);
          newIndex1 = (if \<not> result \<and> i \<le> this_index then newIndex - 1 else newIndex);
          (kept, newIndex2) = filter_scan predicate this_index (i + 1) rest newIndex1
      in (if result then location # kept else kept, newIndex2))"

definition filter_nav :: "(location \<Rightarrow> bool) \<Rightarrow> navigation_stack \<Rightarrow> navigation_stack" where
  "filter_nav predicate s =
     (let originalSize = length (slots s);
          (es, newIndex) = filter_scan predicate (index s) 0 (slots s) (index s);
          s1 = s\<lparr>slots := es, index := min (max newIndex 0) (int (length es) - 1)\<rparr>
      in if originalSize \<noteq> length es then hasChanged s1 else s1)"

definition editorClosed_callback ::
  "editor \<Rightarrow> string \<Rightarrow> location_object \<Rightarrow> nat \<Rightarrow> navigation_stack \<Rightarrow> navigation_stack" where
  "editorClosed_callback ed path location i s =
     (case snd location of
        EditorLocation e p \<Rightarrow>
          if ed = e
          then (let (made, s1) = new_object (UriLocation path (bufferPosition (snd location))) s
                in s1\<lparr>slots := (slots s1)[i := made]\<rparr>)
          else s
      | UriLocation u p \<Rightarrow> s)"

definition editorClosed :: "(editor \<Rightarrow> string option) \<Rightarrow> editor \<Rightarrow> navigation_stack \<Rightarrow> navigation_stack" where
  "editorClosed getPath ed s =
     (case getPath ed of
        None \<Rightarrow>
          filter_nav (\<lambda>location. case location of EditorLocation e p \<Rightarrow> ed \<noteq> e | UriLocation u p \<Rightarrow> True) s
      | Some path \<Rightarrow>
          if path = ''''
          then filter_nav (\<lambda>location. case location of EditorLocation e p \<Rightarrow> ed \<noteq> e | UriLocation u p \<Rightarrow> True) s
          else forEach (editorClosed_callback ed path) s)"

subsection \<open>Sequences of calls\<close>

datatype operation =
    Push location_object
  | AttemptUpdate location_object
  | Previous
  | Next
  | EditorOpened "editor \<Rightarrow> string option" editor
  | EditorClosed "editor \<Rightarrow> string option" editor
  | Filter "location \<Rightarrow> bool"

fun apply_operation :: "operation \<Rightarrow> navigation_stack \<Rightarrow> error + navigation_stack" where
  "apply_operation (Push newTop) s = push newTop s"
| "apply_operation (AttemptUpdate newTop) s = attemptUpdate newTop s"
| "apply_operation Previous s = (case previous s of Inl err \<Rightarrow> Inl err | Inr (result, s1) \<Rightarrow> Inr s1)"
| "apply_operation Next s = (case next_nav s of Inl err \<Rightarrow> Inl err | Inr (result, s1) \<Rightarrow> Inr s1)"
| "apply_operation (EditorOpened getPath ed) s = Inr (editorOpened getPath ed s)"
| "apply_operation (EditorClosed getPath ed) s = Inr (editorClosed getPath ed s)"
| "apply_operation (Filter predicate) s = Inr (filter_nav predicate s)"

fun run :: "operation list \<Rightarrow> navigation_stack \<Rightarrow> error + navigation_stack" where
  "run [] s = Inr s"
| "run (operation # rest) s =
     (case apply_operation operation s of Inl err \<Rightarrow> Inl err | Inr s1 \<Rightarrow> run rest s1)"

text \<open>
  The states the class keeps itself in: at most \<open>MAX_STACK_DEPTH\<close> elements, and the
  index is \<open>-1\<close> on the empty stack and a position of the array otherwise.
\<close>

definition wellformed :: "navigation_stack \<Rightarrow> bool" where
  "wellformed s =
     (length (elements s) \<le> MAX_STACK_DEPTH \<and>
      (if elements s = [] then index s = -1
       else 0 \<le> index s \<and> index s < int (length (elements s))))"

text \<open>What the two conversions do to what one location holds.\<close>

fun opened_location :: "editor \<Rightarrow> string \<Rightarrow> location \<Rightarrow> location" where
  "opened_location ed path (UriLocation u p) =
     (if u = path then EditorLocation ed p else UriLocation u p)"
| "opened_location ed path (EditorLocation e p) = EditorLocation e p"

fun closed_location :: "editor \<Rightarrow> string \<Rightarrow> location \<Rightarrow> location" where
  "closed_location ed path (EditorLocation e p) =
     (if ed = e then UriLocation path p else EditorLocation e p)"
| "closed_location ed path (UriLocation u p) = UriLocation u p"

text \<open>
  Arguments for worked examples: a host in which no editor has a path, a host in which
  every editor is saved at one path, and a predicate that rejects every location.
\<close>

definition unsaved :: "editor \<Rightarrow> string option" where
  "unsaved ed = None"

definition saved_at :: "string \<Rightarrow> editor \<Rightarrow> string option" where
  "saved_at path ed = Some path"

definition reject_all :: "location \<Rightarrow> bool" where
  "reject_all location = False"

section \<open>Auxiliary facts\<close>

subsection \<open>The two views of the array\<close>

lemma length_elements [simp]: "length (elements s) = length (slots s)"
  by (simp add: elements_def)

lemma length_objects [simp]: "length (objects s) = length (slots s)"
  by (simp add: objects_def)

lemma elements_Nil [simp]: "elements s = [] \<longleftrightarrow> slots s = []"
  by (simp add: elements_def)

lemma elements_nth: "i < length (slots s) \<Longrightarrow> elements s ! i = snd (slots s ! i)"
  by (simp add: elements_def)

lemma objects_nth: "i < length (slots s) \<Longrightarrow> objects s ! i = fst (slots s ! i)"
  by (simp add: objects_def)

lemma elements_update [simp]:
  "elements (s\<lparr>slots := xs\<rparr>) = map snd xs"
  "elements (s\<lparr>index := i\<rparr>) = elements s"
  "elements (s\<lparr>changes := c\<rparr>) = elements s"
  "elements (s\<lparr>created := k\<rparr>) = elements s"
  by (simp_all add: elements_def)

lemma objects_update [simp]:
  "objects (s\<lparr>slots := xs\<rparr>) = map fst xs"
  "objects (s\<lparr>index := i\<rparr>) = objects s"
  "objects (s\<lparr>changes := c\<rparr>) = objects s"
  "objects (s\<lparr>created := k\<rparr>) = objects s"
  by (simp_all add: objects_def)

subsection \<open>The array loops\<close>

lemma filter_scan_eq:
  "filter_scan predicate c i xs n =
     (filter (\<lambda>x. predicate (snd x)) xs,
      n - int (length (filter (\<lambda>x. \<not> predicate (snd x)) (take (nat (c - i + 1)) xs))))"
proof (induction xs arbitrary: i n)
  case Nil
  then show ?case by simp
next
  case (Cons x xs)
  show ?case
  proof (cases "i \<le> c")
    case True
    then have "nat (c - i + 1) = Suc (nat (c - (i + 1) + 1))" by simp
    then show ?thesis using True Cons.IH [of "i + 1"]
      by (simp add: Let_def)
  next
    case False
    then have "nat (c - i + 1) = 0" "nat (c - (i + 1) + 1) = 0" by simp_all
    then show ?thesis using False Cons.IH [of "i + 1"]
      by (simp add: Let_def)
  qed
qed

text \<open>
  A callback that replaces what slot \<open>i\<close> shows by \<open>g\<close> of it, and leaves the other slots,
  the index and the published changes alone, makes \<open>forEach\<close> a map over what the array
  shows.
\<close>

lemma forEach_from_pointwise:
  assumes cb: "\<And>i s. i < length (slots s) \<Longrightarrow>
                 elements (callback (slots s ! i) i s) = (elements s)[i := g (elements s ! i)] \<and>
                 index (callback (slots s ! i) i s) = index s \<and>
                 changes (callback (slots s ! i) i s) = changes s"
  shows "i + n \<le> length (slots s) \<Longrightarrow>
         elements (forEach_from callback n i s) =
           take i (elements s) @ map g (take n (drop i (elements s))) @ drop (i + n) (elements s) \<and>
         index (forEach_from callback n i s) = index s \<and>
         changes (forEach_from callback n i s) = changes s"
proof (induction n arbitrary: i s)
  case 0
  then show ?case by simp
next
  case (Suc n)
  then have lt: "i < length (slots s)" by simp
  let ?t = "callback (slots s ! i) i s"
  let ?xs = "elements s"
  note c = cb [OF lt]
  from c have et: "elements ?t = ?xs[i := g (?xs ! i)]" by blast
  then have "length (elements ?t) = length ?xs" by simp
  then have len: "length (slots ?t) = length (slots s)" by simp
  have step: "forEach_from callback (Suc n) i s = forEach_from callback n (Suc i) ?t"
    using lt by simp
  have ih: "elements (forEach_from callback n (Suc i) ?t) =
           take (Suc i) (elements ?t) @ map g (take n (drop (Suc i) (elements ?t)))
             @ drop (Suc i + n) (elements ?t) \<and>
         index (forEach_from callback n (Suc i) ?t) = index ?t \<and>
         changes (forEach_from callback n (Suc i) ?t) = changes ?t"
    using Suc.prems len by (intro Suc.IH) simp
  have "take (Suc i) (elements ?t) @ map g (take n (drop (Suc i) (elements ?t)))
             @ drop (Suc i + n) (elements ?t) =
        take i ?xs @ map g (take (Suc n) (drop i ?xs)) @ drop (i + Suc n) ?xs"
  proof -
    have lt': "i < length ?xs" using lt by simp
    have a: "take (Suc i) (?xs[i := g (?xs ! i)]) = take i ?xs @ [g (?xs ! i)]"
      using lt' by (simp add: take_Suc_conv_app_nth)
    have b: "drop (Suc i) (?xs[i := g (?xs ! i)]) = drop (Suc i) ?xs" by simp
    have c': "drop (Suc i + n) (?xs[i := g (?xs ! i)]) = drop (i + Suc n) ?xs" by simp
    have d: "take (Suc n) (drop i ?xs) = ?xs ! i # take n (drop (Suc i) ?xs)"
      using lt' by (simp add: Cons_nth_drop_Suc [symmetric])
    show ?thesis unfolding et a b c' d by simp
  qed
  with ih c show ?case unfolding step by simp
qed

lemma forEach_map:
  assumes cb: "\<And>i s. i < length (slots s) \<Longrightarrow>
                 elements (callback (slots s ! i) i s) = (elements s)[i := g (elements s ! i)] \<and>
                 index (callback (slots s ! i) i s) = index s \<and>
                 changes (callback (slots s ! i) i s) = changes s"
  shows "elements (forEach callback s) = map g (elements s) \<and>
         index (forEach callback s) = index s \<and> changes (forEach callback s) = changes s"
proof -
  have "elements (forEach_from callback (length (slots s)) 0 s) =
           take 0 (elements s) @ map g (take (length (slots s)) (drop 0 (elements s)))
             @ drop (0 + length (slots s)) (elements s) \<and>
         index (forEach_from callback (length (slots s)) 0 s) = index s \<and>
         changes (forEach_from callback (length (slots s)) 0 s) = changes s"
    by (rule forEach_from_pointwise [where g = g]) (simp_all add: cb)
  then show ?thesis by (simp add: forEach_def)
qed

lemma editorOpened_callback_update:
  assumes "i < length (slots s)"
  shows "elements (editorOpened_callback ed path (slots s ! i) i s) =
           (elements s)[i := opened_location ed path (elements s ! i)] \<and>
         index (editorOpened_callback ed path (slots s ! i) i s) = index s \<and>
         changes (editorOpened_callback ed path (slots s ! i) i s) = changes s"
proof -
  have id: "(elements s)[i := elements s ! i] = elements s" by simp
  have nth: "elements s ! i = snd (slots s ! i)" using assms by (rule elements_nth)
  show ?thesis
  proof (cases "snd (slots s ! i)")
    case (EditorLocation e p)
    then show ?thesis using id nth by (simp add: editorOpened_callback_def)
  next
    case (UriLocation u p)
    show ?thesis
    proof (cases "u = path")
      case True
      then show ?thesis using UriLocation nth
        by (simp add: editorOpened_callback_def new_object_def map_update) (simp add: elements_def)
    next
      case False
      then show ?thesis using UriLocation id nth by (simp add: editorOpened_callback_def)
    qed
  qed
qed

lemma editorClosed_callback_update:
  assumes "i < length (slots s)"
  shows "elements (editorClosed_callback ed path (slots s ! i) i s) =
           (elements s)[i := closed_location ed path (elements s ! i)] \<and>
         index (editorClosed_callback ed path (slots s ! i) i s) = index s \<and>
         changes (editorClosed_callback ed path (slots s ! i) i s) = changes s"
proof -
  have id: "(elements s)[i := elements s ! i] = elements s" by simp
  have nth: "elements s ! i = snd (slots s ! i)" using assms by (rule elements_nth)
  show ?thesis
  proof (cases "snd (slots s ! i)")
    case (UriLocation u p)
    then show ?thesis using id nth by (simp add: editorClosed_callback_def)
  next
    case (EditorLocation e p)
    show ?thesis
    proof (cases "ed = e")
      case True
      then show ?thesis using EditorLocation nth
        by (simp add: editorClosed_callback_def new_object_def map_update) (simp add: elements_def)
    next
      case False
      then show ?thesis using EditorLocation id nth by (simp add: editorClosed_callback_def)
    qed
  qed
qed

lemma editorOpened_Some:
  assumes "getPath ed = Some path"
  shows "elements (editorOpened getPath ed s) = map (opened_location ed path) (elements s) \<and>
         index (editorOpened getPath ed s) = index s \<and>
         changes (editorOpened getPath ed s) = changes s"
proof -
  have "elements (forEach (editorOpened_callback ed path) s) = map (opened_location ed path) (elements s) \<and>
        index (forEach (editorOpened_callback ed path) s) = index s \<and>
        changes (forEach (editorOpened_callback ed path) s) = changes s"
    by (rule forEach_map) (rule editorOpened_callback_update)
  then show ?thesis using assms by (simp add: editorOpened_def)
qed

lemma editorClosed_Some:
  assumes "getPath ed = Some path" and "path \<noteq> []"
  shows "elements (editorClosed getPath ed s) = map (closed_location ed path) (elements s) \<and>
         index (editorClosed getPath ed s) = index s \<and>
         changes (editorClosed getPath ed s) = changes s"
proof -
  have "elements (forEach (editorClosed_callback ed path) s) = map (closed_location ed path) (elements s) \<and>
        index (forEach (editorClosed_callback ed path) s) = index s \<and>
        changes (forEach (editorClosed_callback ed path) s) = changes s"
    by (rule forEach_map) (rule editorClosed_callback_update)
  then show ?thesis using assms by (simp add: editorClosed_def)
qed

lemma filter_nav_eq:
  "filter_nav predicate s =
     s\<lparr>slots := filter (\<lambda>x. predicate (snd x)) (slots s),
       index := min (max (index s - int (length (filter (\<lambda>x. \<not> predicate (snd x))
                                                (take (nat (index s + 1)) (slots s))))) 0)
                  (int (length (filter (\<lambda>x. predicate (snd x)) (slots s))) - 1),
       changes := (if length (filter (\<lambda>x. predicate (snd x)) (slots s)) \<noteq> length (slots s)
                 then Suc (changes s) else changes s)\<rparr>"
  by (simp add: filter_nav_def filter_scan_eq hasChanged_def Let_def)

lemma elements_filter:
  "map snd (filter (\<lambda>x. predicate (snd x)) xs) = filter predicate (map snd xs)"
  by (induction xs) simp_all

lemma filter_nav_elements:
  "elements (filter_nav predicate s) = filter predicate (elements s)"
  by (simp add: filter_nav_eq elements_filter) (simp add: elements_def)

subsection \<open>The methods on well-formed stacks\<close>

lemma wellformed_bounds:
  assumes "wellformed s"
  shows "length (slots s) \<le> 100" and "- 1 \<le> index s" and "index s < int (length (slots s))"
    and "slots s = [] \<Longrightarrow> index s = - 1" and "slots s \<noteq> [] \<Longrightarrow> 0 \<le> index s"
  using assms by (simp_all add: wellformed_def MAX_STACK_DEPTH_def split: if_splits)

lemma wellformed_slots:
  "wellformed s \<longleftrightarrow>
     length (slots s) \<le> 100 \<and>
     (if slots s = [] then index s = - 1 else 0 \<le> index s \<and> index s < int (length (slots s)))"
  by (simp add: wellformed_def MAX_STACK_DEPTH_def)

lemma splice_from_wellformed:
  "wellformed s \<Longrightarrow> splice_from (index s + 1) (slots s) = take (nat (index s + 1)) (slots s)"
  by (auto simp: wellformed_slots splice_from_def split: if_splits)

lemma push_wellformed:
  assumes "wellformed s"
  shows "push newTop s =
           Inr (s\<lparr>slots := (if index s + 1 < 100 then take (nat (index s + 1)) (slots s) @ [newTop]
                            else tl (slots s) @ [newTop]),
                  index := (if index s + 1 < 100 then index s + 1 else 99),
                  changes := Suc (changes s)\<rparr>)"
proof (cases "index s + 1 < 100")
  case True
  then have "length (take (nat (index s + 1)) (slots s) @ [newTop]) \<le> 100"
    by simp
  moreover have "int (min (length (slots s)) (nat (index s + 1))) = index s + 1"
    using assms by (auto simp: wellformed_slots split: if_splits)
  ultimately show ?thesis using True assms
    by (simp add: push_def splice_from_wellformed MAX_STACK_DEPTH_def hasChanged_def Let_def)
next
  case False
  then have len: "length (slots s) = 100" and idx: "index s = 99"
    using assms by (auto simp: wellformed_slots split: if_splits)
  have sp: "splice_from (index s + 1) (slots s) = slots s"
    using len idx by (simp add: splice_from_def)
  show ?thesis unfolding push_def sp using False len idx
    by (simp add: MAX_STACK_DEPTH_def hasChanged_def Let_def splice_first_def drop_Suc)
qed

lemma push_preserves:
  assumes "wellformed s"
  shows "\<exists>s1. push newTop s = Inr s1 \<and> wellformed s1"
proof -
  note b = wellformed_bounds [OF assms]
  show ?thesis
  proof (cases "index s + 1 < 100")
    case True
    have "length (take (nat (index s + 1)) (slots s)) = nat (index s + 1)"
      using b(2,3) by simp
    then show ?thesis using True b(2)
      by (simp add: push_wellformed [OF assms] wellformed_slots)
  next
    case False
    then have "length (slots s) = 100" using b(1,3) by simp
    then show ?thesis using False
      by (simp add: push_wellformed [OF assms] wellformed_slots)
  qed
qed

lemma getCurrent_wellformed:
  "wellformed s \<Longrightarrow> slots s \<noteq> [] \<Longrightarrow> getCurrent s = Inr (slots s ! nat (index s))"
  by (simp add: wellformed_slots getCurrent_def)

lemma current_element:
  assumes "wellformed s" and "slots s \<noteq> []"
  shows "elements s ! nat (index s) = snd (slots s ! nat (index s))"
proof -
  have "nat (index s) < length (slots s)"
    using wellformed_bounds(3) [OF assms(1)] wellformed_bounds(5) [OF assms] by linarith
  then show ?thesis by (rule elements_nth)
qed

lemma getCurrentEditor_empty:
  "slots s = [] \<Longrightarrow> getCurrentEditor s = Inr None"
  by (simp add: getCurrentEditor_def hasCurrent_def isEmpty_def)

lemma getCurrentEditor_wellformed:
  "wellformed s \<Longrightarrow> slots s \<noteq> [] \<Longrightarrow>
   getCurrentEditor s =
     Inr (case elements s ! nat (index s) of EditorLocation e p \<Rightarrow> Some e | UriLocation u p \<Rightarrow> None)"
  by (simp add: getCurrentEditor_def hasCurrent_def isEmpty_def getCurrent_wellformed current_element
      split: location.splits)

lemma attemptUpdate_empty:
  "slots s = [] \<Longrightarrow> attemptUpdate newTop s = push newTop s"
  by (simp add: attemptUpdate_def getCurrentEditor_empty split: location.splits)

lemma attemptUpdate_same:
  assumes "wellformed s" and "slots s \<noteq> []"
    and "elements s ! nat (index s) = EditorLocation e q"
  shows "attemptUpdate (ob, EditorLocation e p) s =
           Inr (s\<lparr>slots := assign_bufferPosition (fst (slots s ! nat (index s))) p (slots s)\<rparr>)"
  using assms
  by (simp add: attemptUpdate_def getCurrentEditor_wellformed getCurrent_wellformed)

lemma attemptUpdate_other:
  assumes "wellformed s" and "slots s \<noteq> []"
    and "\<And>q. elements s ! nat (index s) \<noteq> EditorLocation e q"
  shows "attemptUpdate (ob, EditorLocation e p) s = push (ob, EditorLocation e p) s"
  using assms
  by (cases "elements s ! nat (index s)")
     (auto simp: attemptUpdate_def getCurrentEditor_wellformed getCurrent_wellformed)

lemma attemptUpdate_uri:
  assumes "wellformed s"
  shows "attemptUpdate (ob, UriLocation u p) s = push (ob, UriLocation u p) s"
proof (cases "slots s = []")
  case True
  then show ?thesis by (rule attemptUpdate_empty)
next
  case False
  then show ?thesis using assms
    by (simp add: attemptUpdate_def getCurrentEditor_wellformed)
qed

lemma length_assign_bufferPosition [simp]:
  "length (assign_bufferPosition current p xs) = length xs"
  by (simp add: assign_bufferPosition_def)

lemma attemptUpdate_preserves:
  assumes "wellformed s"
  shows "\<exists>s1. attemptUpdate newTop s = Inr s1 \<and> wellformed s1"
proof (cases newTop)
  case (Pair ob location)
  show ?thesis
  proof (cases location)
    case (UriLocation u p)
    then show ?thesis using Pair attemptUpdate_uri [OF assms] push_preserves [OF assms, of newTop]
      by simp
  next
    case (EditorLocation e p)
    show ?thesis
    proof (cases "slots s \<noteq> [] \<and> (\<exists>q. elements s ! nat (index s) = EditorLocation e q)")
      case True
      then obtain q where ne: "slots s \<noteq> []" and cur: "elements s ! nat (index s) = EditorLocation e q"
        by blast
      have "wellformed (s\<lparr>slots := assign_bufferPosition (fst (slots s ! nat (index s))) p (slots s)\<rparr>)"
        using assms ne by (simp add: wellformed_slots assign_bufferPosition_def)
      then show ?thesis using attemptUpdate_same [OF assms ne cur, of ob p] EditorLocation Pair by simp
    next
      case False
      have "attemptUpdate newTop s = push newTop s"
      proof (cases "slots s = []")
        case True
        then show ?thesis by (rule attemptUpdate_empty)
      next
        case ne: False
        with False have "\<And>q. elements s ! nat (index s) \<noteq> EditorLocation e q" by blast
        then show ?thesis using attemptUpdate_other [OF assms ne] EditorLocation Pair by simp
      qed
      then show ?thesis using push_preserves [OF assms, of newTop] by simp
    qed
  qed
qed

lemma previous_wellformed:
  assumes "wellformed s"
  shows "previous s =
           (if 0 < index s
            then Inr (Some (slots s ! nat (index s - 1)),
                      s\<lparr>index := index s - 1, changes := Suc (changes s)\<rparr>)
            else Inr (None, s))"
proof (cases "0 < index s")
  case True
  then have "getCurrent (s\<lparr>index := index s - 1\<rparr>) = Inr (slots s ! nat (index s - 1))"
    using wellformed_bounds(3) [OF assms] by (simp add: getCurrent_def)
  then show ?thesis using True by (simp add: previous_def hasPrevious_def hasChanged_def)
next
  case False
  then show ?thesis by (simp add: previous_def hasPrevious_def)
qed

lemma next_nav_wellformed:
  assumes "wellformed s"
  shows "next_nav s =
           (if index s + 1 < int (length (slots s))
            then Inr (Some (slots s ! nat (index s + 1)),
                      s\<lparr>index := index s + 1, changes := Suc (changes s)\<rparr>)
            else Inr (None, s))"
proof (cases "index s + 1 < int (length (slots s))")
  case True
  then have "getCurrent (s\<lparr>index := index s + 1\<rparr>) = Inr (slots s ! nat (index s + 1))"
    using wellformed_bounds(2) [OF assms] by (simp add: getCurrent_def)
  then show ?thesis using True by (simp add: next_nav_def hasNext_def hasChanged_def)
next
  case False
  then show ?thesis by (simp add: next_nav_def hasNext_def)
qed

lemma previous_preserves:
  assumes "wellformed s"
  shows "\<exists>r s1. previous s = Inr (r, s1) \<and> wellformed s1"
proof (cases "0 < index s")
  case True
  have "wellformed (s\<lparr>index := index s - 1, changes := Suc (changes s)\<rparr>)"
    using True assms by (auto simp: wellformed_slots)
  then show ?thesis using True by (simp add: previous_wellformed [OF assms])
next
  case False
  then show ?thesis using assms by (simp add: previous_wellformed [OF assms])
qed

lemma next_nav_preserves:
  assumes "wellformed s"
  shows "\<exists>r s1. next_nav s = Inr (r, s1) \<and> wellformed s1"
proof (cases "index s + 1 < int (length (slots s))")
  case True
  have "wellformed (s\<lparr>index := index s + 1, changes := Suc (changes s)\<rparr>)"
    using True assms wellformed_bounds(2) [OF assms] by (auto simp: wellformed_slots)
  then show ?thesis using True by (simp add: next_nav_wellformed [OF assms])
next
  case False
  then show ?thesis using assms by (simp add: next_nav_wellformed [OF assms])
qed

lemma filter_nav_preserves:
  assumes "wellformed s"
  shows "wellformed (filter_nav predicate s)"
proof -
  let ?kept = "filter (\<lambda>x. predicate (snd x)) (slots s)"
  have "length ?kept \<le> length (slots s)" by simp
  then have le: "length ?kept \<le> 100"
    using wellformed_bounds(1) [OF assms] by linarith
  show ?thesis
  proof (cases "?kept = []")
    case True
    then show ?thesis by (simp add: filter_nav_eq wellformed_slots)
  next
    case False
    then have "0 < length ?kept" by simp
    then show ?thesis using False le
      by (simp add: filter_nav_eq wellformed_slots)
  qed
qed

lemma wellformed_map:
  assumes "elements t = map g (elements s)" and "index t = index s" and "wellformed s"
  shows "wellformed t"
proof -
  from assms(1) have "length (elements t) = length (elements s)" by simp
  then have "length (slots t) = length (slots s)" by simp
  moreover from this have "slots t = [] \<longleftrightarrow> slots s = []" by (metis length_0_conv)
  ultimately show ?thesis using assms(2,3) by (simp add: wellformed_slots)
qed

lemma editorOpened_preserves:
  assumes "wellformed s"
  shows "wellformed (editorOpened getPath ed s)"
proof (cases "getPath ed")
  case None
  then show ?thesis using assms by (simp add: editorOpened_def)
next
  case (Some path)
  then have "elements (editorOpened getPath ed s) = map (opened_location ed path) (elements s) \<and>
         index (editorOpened getPath ed s) = index s \<and>
         changes (editorOpened getPath ed s) = changes s"
    by (rule editorOpened_Some)
  then show ?thesis using assms by (blast intro: wellformed_map)
qed

lemma editorClosed_preserves:
  assumes "wellformed s"
  shows "wellformed (editorClosed getPath ed s)"
proof (cases "getPath ed")
  case None
  then show ?thesis using filter_nav_preserves [OF assms] by (simp add: editorClosed_def)
next
  case (Some path)
  show ?thesis
  proof (cases "path = []")
    case True
    then show ?thesis using Some filter_nav_preserves [OF assms] by (simp add: editorClosed_def)
  next
    case False
    with Some have "elements (editorClosed getPath ed s) = map (closed_location ed path) (elements s) \<and>
         index (editorClosed getPath ed s) = index s \<and>
         changes (editorClosed getPath ed s) = changes s"
      by (rule editorClosed_Some)
    then show ?thesis using assms by (blast intro: wellformed_map)
  qed
qed

subsection \<open>Every sequence of calls keeps the stack well-formed\<close>

lemma apply_operation_preserves:
  assumes "wellformed s"
  shows "\<exists>s1. apply_operation operation s = Inr s1 \<and> wellformed s1"
proof (cases operation)
  case (Push newTop)
  then show ?thesis using push_preserves [OF assms] by simp
next
  case (AttemptUpdate newTop)
  then show ?thesis using attemptUpdate_preserves [OF assms] by simp
next
  case Previous
  then show ?thesis using previous_preserves [OF assms] by auto
next
  case Next
  then show ?thesis using next_nav_preserves [OF assms] by auto
next
  case (EditorOpened getPath ed)
  then show ?thesis using editorOpened_preserves [OF assms] by simp
next
  case (EditorClosed getPath ed)
  then show ?thesis using editorClosed_preserves [OF assms] by simp
next
  case (Filter predicate)
  then show ?thesis using filter_nav_preserves [OF assms] by simp
qed

lemma run_preserves:
  "wellformed s \<Longrightarrow> \<exists>s1. run operations s = Inr s1 \<and> wellformed s1"
proof (induction operations arbitrary: s)
  case Nil
  then show ?case by simp
next
  case (Cons operation rest)
  from apply_operation_preserves [OF Cons.prems, of operation]
  obtain s1 where "apply_operation operation s = Inr s1" "wellformed s1" by blast
  then show ?case using Cons.IH [of s1] by simp
qed

lemma wellformed_new: "wellformed new_NavigationStack"
  by (simp add: wellformed_slots new_NavigationStack_def)

text \<open>The definitions a concrete call unfolds to.\<close>

lemmas nav_defs = new_NavigationStack_def push_def splice_from_def splice_first_def
  MAX_STACK_DEPTH_def hasChanged_def previous_def hasPrevious_def next_nav_def hasNext_def
  getCurrent_def editorClosed_def editorOpened_def editorOpened_callback_def saved_at_def
  unsaved_def forEach_def editorClosed_callback_def filter_nav_def reject_all_def
  attemptUpdate_def getCurrentEditor_def hasCurrent_def isEmpty_def Let_def
  elements_def objects_def assign_bufferPosition_def new_object_def

section \<open>The claims\<close>

text \<open>
  C1. Whatever sequence of \<^verbatim>\<open>push\<close>, \<^verbatim>\<open>attemptUpdate\<close>, \<^verbatim>\<open>previous\<close>, \<^verbatim>\<open>next\<close>,
  \<^verbatim>\<open>editorOpened\<close>, \<^verbatim>\<open>editorClosed\<close> and \<^verbatim>\<open>filter\<close> calls is made on a new
  stack, no call fails, the stack holds at most \<open>MAX_STACK_DEPTH = 100\<close> elements, and
  when it is not empty the index is a position of the array.
\<close>

theorem stack_invariants:
  "\<exists>s. run operations new_NavigationStack = Inr s \<and>
       length (elements s) \<le> MAX_STACK_DEPTH \<and> MAX_STACK_DEPTH = 100 \<and>
       (elements s \<noteq> [] \<longrightarrow> 0 \<le> index s \<and> index s < int (length (elements s)))"
proof -
  from run_preserves [OF wellformed_new, of operations]
  obtain s where r: "run operations new_NavigationStack = Inr s" and w: "wellformed s" by blast
  from wellformed_bounds [OF w] have "length (elements s) \<le> MAX_STACK_DEPTH"
    and "elements s \<noteq> [] \<longrightarrow> 0 \<le> index s \<and> index s < int (length (elements s))"
    by (simp_all add: MAX_STACK_DEPTH_def)
  with r show ?thesis by (auto simp: MAX_STACK_DEPTH_def)
qed

theorem stack_invariants_witness:
  "\<exists>s. run [Push (Given 1, EditorLocation 1 (0, 0)), Push (Given 2, EditorLocation 2 (3, 4)), Previous,
             EditorClosed (saved_at ''/a'') 1, AttemptUpdate (Given 3, EditorLocation 2 (5, 0))]
          new_NavigationStack = Inr s \<and>
       elements s = [UriLocation ''/a'' (0, 0), EditorLocation 2 (5, 0)] \<and>
       elements s \<noteq> [] \<and> length (elements s) \<le> 100 \<and>
       0 \<le> index s \<and> index s < int (length (elements s))"
proof -
  let ?ops = "[Push (Given 1, EditorLocation 1 (0, 0)), Push (Given 2, EditorLocation 2 (3, 4)), Previous,
               EditorClosed (saved_at ''/a'') 1, AttemptUpdate (Given 3, EditorLocation 2 (5, 0))]"
  have ev: "run ?ops new_NavigationStack =
              Inr \<lparr>slots = [(Created 0, UriLocation ''/a'' (0, 0)), (Given 3, EditorLocation 2 (5, 0))],
                   index = 1, changes = 4, created = 1\<rparr>"
    by (simp add: nav_defs)
  from stack_invariants [of ?ops] obtain s where
    r: "run ?ops new_NavigationStack = Inr s" and
    b: "length (elements s) \<le> MAX_STACK_DEPTH" "MAX_STACK_DEPTH = 100"
       "elements s \<noteq> [] \<longrightarrow> 0 \<le> index s \<and> index s < int (length (elements s))"
    by blast
  from r ev have e: "elements s = [UriLocation ''/a'' (0, 0), EditorLocation 2 (5, 0)]"
    by (auto simp: elements_def)
  then have "elements s \<noteq> []" by simp
  with r b e show ?thesis by (intro exI [of _ s]) simp
qed

text \<open>
  C10. After any sequence of calls on a new stack the index is \<open>-1\<close> exactly when the
  stack is empty, and a \<^verbatim>\<open>filter\<close> that rejects every element then leaves the empty
  array with index \<open>-1\<close>, the index of a new stack.
\<close>

theorem index_sentinel_iff_empty:
  "\<exists>s. run operations new_NavigationStack = Inr s \<and>
       (index s = - 1 \<longleftrightarrow> elements s = []) \<and>
       (\<forall>predicate. (\<forall>location \<in> set (elements s). \<not> predicate location) \<longrightarrow>
          elements (filter_nav predicate s) = [] \<and>
          index (filter_nav predicate s) = index new_NavigationStack \<and>
          index (filter_nav predicate s) = - 1)"
proof -
  from run_preserves [OF wellformed_new, of operations]
  obtain s where r: "run operations new_NavigationStack = Inr s" and w: "wellformed s" by blast
  have a: "index s = - 1 \<longleftrightarrow> elements s = []"
    using w by (auto simp: wellformed_slots split: if_splits)
  have b: "elements (filter_nav predicate s) = [] \<and>
           index (filter_nav predicate s) = index new_NavigationStack \<and>
           index (filter_nav predicate s) = - 1"
    if "\<forall>location \<in> set (elements s). \<not> predicate location" for predicate
  proof -
    from that have "filter predicate (elements s) = []" by (simp add: filter_empty_conv)
    then have "elements (filter_nav predicate s) = []" by (simp only: filter_nav_elements)
    then have "slots (filter_nav predicate s) = []" by simp
    then have "filter (\<lambda>x. predicate (snd x)) (slots s) = []" by (simp add: filter_nav_eq)
    then show ?thesis by (simp add: filter_nav_eq new_NavigationStack_def)
  qed
  from r a b show ?thesis by blast
qed

theorem index_sentinel_iff_empty_witness:
  "\<exists>s. run [Push (Given 1, EditorLocation 1 (0, 0)), Push (Given 2, EditorLocation 2 (3, 4))]
          new_NavigationStack = Inr s \<and>
       index s \<noteq> - 1 \<and> elements s \<noteq> [] \<and>
       elements (filter_nav reject_all s) = [] \<and> index (filter_nav reject_all s) = - 1"
proof -
  let ?ops = "[Push (Given 1, EditorLocation 1 (0, 0)), Push (Given 2, EditorLocation 2 (3, 4))]"
  from index_sentinel_iff_empty [of ?ops] obtain s where
    r: "run ?ops new_NavigationStack = Inr s" and
    a: "index s = - 1 \<longleftrightarrow> elements s = []" and
    b: "\<forall>predicate. (\<forall>location \<in> set (elements s). \<not> predicate location) \<longrightarrow>
          elements (filter_nav predicate s) = [] \<and>
          index (filter_nav predicate s) = index new_NavigationStack \<and>
          index (filter_nav predicate s) = - 1"
    by blast
  have "run ?ops new_NavigationStack =
          Inr \<lparr>slots = [(Given 1, EditorLocation 1 (0, 0)), (Given 2, EditorLocation 2 (3, 4))],
               index = 1, changes = 2, created = 0\<rparr>"
    by (simp add: nav_defs)
  with r have ne: "elements s \<noteq> []" by auto
  have rej: "\<forall>location \<in> set (elements s). \<not> reject_all location"
    by (simp add: reject_all_def)
  from b rej have "elements (filter_nav reject_all s) = [] \<and> index (filter_nav reject_all s) = - 1"
    by blast
  with r a ne show ?thesis by (intro exI [of _ s]) simp
qed

text \<open>
  C2. On every well-formed stack \<^verbatim>\<open>push\<close> of an editor location succeeds, keeps of the
  old elements only those at or before the index (less the oldest one when the depth limit
  is passed), puts the new location last, sets the index to the last position and
  publishes one change. From the new stack, \<^verbatim>\<open>push(A)\<close>, \<^verbatim>\<open>push(B)\<close>, \<^verbatim>\<open>previous()\<close>
  returns \<open>A\<close>, and \<^verbatim>\<open>push(C)\<close> then leaves the elements \<open>[A, C]\<close>, index 1 and no next
  element.
\<close>

theorem push_truncates_and_appends:
  "(wellformed s \<longrightarrow>
      (\<exists>s1. push (ob, EditorLocation e p) s = Inr s1 \<and>
            elements s1 =
              drop (if index s + 1 < 100 then 0 else 1) (take (nat (index s + 1)) (elements s))
                @ [EditorLocation e p] \<and>
            objects s1 =
              drop (if index s + 1 < 100 then 0 else 1) (take (nat (index s + 1)) (objects s))
                @ [ob] \<and>
            index s1 = int (length (elements s1)) - 1 \<and>
            changes s1 = Suc (changes s))) \<and>
   (\<exists>s1 s2 s3 s4.
      push A new_NavigationStack = Inr s1 \<and> push B s1 = Inr s2 \<and>
      previous s2 = Inr (Some A, s3) \<and> push C s3 = Inr s4 \<and>
      slots s4 = [A, C] \<and> elements s4 = [snd A, snd C] \<and> index s4 = 1 \<and> \<not> hasNext s4)"
proof (intro conjI impI)
  assume w: "wellformed s"
  note b = wellformed_bounds [OF w]
  show "\<exists>s1. push (ob, EditorLocation e p) s = Inr s1 \<and>
            elements s1 =
              drop (if index s + 1 < 100 then 0 else 1) (take (nat (index s + 1)) (elements s))
                @ [EditorLocation e p] \<and>
            objects s1 =
              drop (if index s + 1 < 100 then 0 else 1) (take (nat (index s + 1)) (objects s))
                @ [ob] \<and>
            index s1 = int (length (elements s1)) - 1 \<and>
            changes s1 = Suc (changes s)"
  proof (cases "index s + 1 < 100")
    case True
    have "length (take (nat (index s + 1)) (slots s)) = nat (index s + 1)"
      using b(2,3) by simp
    then show ?thesis using True b(2)
      by (simp add: push_wellformed [OF w] elements_def objects_def take_map)
  next
    case False
    then have len: "length (slots s) = 100" and idx: "index s = 99" using b(1,3) by simp_all
    then have "take (nat (index s + 1)) (slots s) = slots s" by simp
    then show ?thesis using False len
      by (simp add: push_wellformed [OF w] elements_def objects_def drop_Suc map_tl)
  qed
next
  show "\<exists>s1 s2 s3 s4.
      push A new_NavigationStack = Inr s1 \<and> push B s1 = Inr s2 \<and>
      previous s2 = Inr (Some A, s3) \<and> push C s3 = Inr s4 \<and>
      slots s4 = [A, C] \<and> elements s4 = [snd A, snd C] \<and> index s4 = 1 \<and> \<not> hasNext s4"
    by (simp add: nav_defs)
qed

theorem push_truncates_and_appends_witness:
  "wellformed \<lparr>slots = [(Given 1, EditorLocation 1 (0, 0)), (Given 2, EditorLocation 2 (3, 4)),
                        (Given 3, EditorLocation 3 (1, 1))],
               index = 0, changes = 5, created = 0\<rparr> \<and>
   (\<exists>s1. push (Given 7, EditorLocation 7 (2, 2))
            \<lparr>slots = [(Given 1, EditorLocation 1 (0, 0)), (Given 2, EditorLocation 2 (3, 4)),
                      (Given 3, EditorLocation 3 (1, 1))],
             index = 0, changes = 5, created = 0\<rparr> = Inr s1 \<and>
         elements s1 = [EditorLocation 1 (0, 0), EditorLocation 7 (2, 2)] \<and>
         objects s1 = [Given 1, Given 7] \<and>
         index s1 = 1 \<and> changes s1 = 6)"
proof -
  let ?s = "\<lparr>slots = [(Given 1, EditorLocation 1 (0, 0)), (Given 2, EditorLocation 2 (3, 4)),
                      (Given 3, EditorLocation 3 (1, 1))],
             index = 0, changes = 5, created = 0\<rparr>"
  have w: "wellformed ?s" by (simp add: wellformed_slots)
  from push_truncates_and_appends [where s = ?s and ob = "Given 7" and e = 7 and p = "(2, 2)"
      and A = "(Given 1, EditorLocation 1 (0, 0))" and B = "(Given 2, EditorLocation 2 (3, 4))"
      and C = "(Given 3, EditorLocation 3 (1, 1))"] w
  obtain s1 where "push (Given 7, EditorLocation 7 (2, 2)) ?s = Inr s1"
    and "elements s1 = drop (if index ?s + 1 < 100 then 0 else 1) (take (nat (index ?s + 1)) (elements ?s))
                         @ [EditorLocation 7 (2, 2)]"
    and "objects s1 = drop (if index ?s + 1 < 100 then 0 else 1) (take (nat (index ?s + 1)) (objects ?s))
                         @ [Given 7]"
    and "index s1 = int (length (elements s1)) - 1" and "changes s1 = Suc (changes ?s)"
    by blast
  then have "push (Given 7, EditorLocation 7 (2, 2)) ?s = Inr s1 \<and>
             elements s1 = [EditorLocation 1 (0, 0), EditorLocation 7 (2, 2)] \<and>
             objects s1 = [Given 1, Given 7] \<and>
             index s1 = 1 \<and> changes s1 = 6"
    by (simp add: elements_def objects_def)
  with w show ?thesis by blast
qed

text \<open>A run of pushes from a stack whose index is at the top keeps the last 100 objects.\<close>

lemma run_pushes:
  assumes "wellformed s" and "index s = int (length (slots s)) - 1"
  shows "\<exists>s1. run (map Push locations) s = Inr s1 \<and> wellformed s1 \<and>
              slots s1 = drop (length (slots s) + length locations - 100) (slots s @ locations) \<and>
              index s1 = int (length (slots s1)) - 1 \<and>
              changes s1 = changes s + length locations"
  using assms
proof (induction locations arbitrary: s)
  case Nil
  then show ?case using wellformed_bounds(1) [of s] by simp
next
  case (Cons x xs)
  note w = Cons.prems(1) and top = Cons.prems(2)
  note b = wellformed_bounds [OF w]
  define s1 where "s1 = s\<lparr>slots := drop (length (slots s) + 1 - 100) (slots s @ [x]),
                          index := int (length (drop (length (slots s) + 1 - 100) (slots s @ [x]))) - 1,
                          changes := Suc (changes s)\<rparr>"
  have p: "push x s = Inr s1"
  proof (cases "index s + 1 < 100")
    case True
    then have "take (nat (index s + 1)) (slots s) = slots s" using top by simp
    then show ?thesis using True top by (simp add: push_wellformed [OF w] s1_def)
  next
    case False
    then have len: "length (slots s) = 100" using b(1,3) by simp
    then have "slots s \<noteq> []" by auto
    then show ?thesis using False len by (simp add: push_wellformed [OF w] s1_def drop_Suc)
  qed
  have w1: "wellformed s1" using push_preserves [OF w, of x] p by simp
  have top1: "index s1 = int (length (slots s1)) - 1" by (simp add: s1_def)
  from Cons.IH [OF w1 top1] obtain s2 where
    r: "run (map Push xs) s1 = Inr s2" and w2: "wellformed s2" and
    e: "slots s2 = drop (length (slots s1) + length xs - 100) (slots s1 @ xs)" and
    i: "index s2 = int (length (slots s2)) - 1" and
    c: "changes s2 = changes s1 + length xs"
    by blast
  have "drop (length (slots s1) + length xs - 100) (slots s1 @ xs) =
        drop (length (slots s) + length (x # xs) - 100) (slots s @ x # xs)"
  proof (cases "length (slots s) < 100")
    case True
    then show ?thesis by (simp add: s1_def)
  next
    case False
    then have len: "length (slots s) = 100" using b(1) by simp
    then obtain y ys where ys: "slots s = y # ys" by (cases "slots s") auto
    with len have "length ys = 99" by simp
    then show ?thesis using len ys by (simp add: s1_def)
  qed
  with e have e': "slots s2 = drop (length (slots s) + length (x # xs) - 100) (slots s @ x # xs)"
    by simp
  have "run (map Push (x # xs)) s = Inr s2" using p r by simp
  moreover have "changes s2 = changes s + length (x # xs)" using c by (simp add: s1_def)
  ultimately show ?case using w2 e' i by blast
qed

text \<open>
  C3. After any sequence of \<^verbatim>\<open>push\<close> calls on a new stack the array holds the last 100
  locations pushed, so never more than 100; at depth 100 a further push drops exactly the
  element at index 0 and appends the new one; and after 101 distinct locations the depth
  is 100 and the first location pushed is gone.
\<close>

theorem push_evicts_oldest:
  "\<exists>s. run (map Push locations) new_NavigationStack = Inr s \<and>
       length (elements s) \<le> 100 \<and>
       slots s = drop (length locations - 100) locations \<and>
       elements s = drop (length locations - 100) (map snd locations) \<and>
       (\<forall>newTop. length (elements s) = 100 \<longrightarrow>
          (\<exists>s1. push newTop s = Inr s1 \<and> slots s1 = tl (slots s) @ [newTop] \<and>
                elements s1 = tl (elements s) @ [snd newTop] \<and>
                length (elements s1) = 100)) \<and>
       (length locations = 101 \<and> distinct (map snd locations) \<longrightarrow>
          length (elements s) = 100 \<and> snd (hd locations) \<notin> set (elements s)) \<and>
       (length locations = 101 \<and> distinct (map fst locations) \<longrightarrow>
          length (elements s) = 100 \<and> fst (hd locations) \<notin> set (objects s))"
proof -
  have "index new_NavigationStack = int (length (slots new_NavigationStack)) - 1"
    by (simp add: new_NavigationStack_def)
  from run_pushes [OF wellformed_new this, of locations] obtain s where
    r: "run (map Push locations) new_NavigationStack = Inr s" and w: "wellformed s" and
    sl: "slots s = drop (length locations - 100) locations" and
    i: "index s = int (length (slots s)) - 1"
    by (auto simp: new_NavigationStack_def)
  have e: "elements s = drop (length locations - 100) (map snd locations)"
    by (simp add: elements_def sl drop_map)
  have o: "objects s = drop (length locations - 100) (map fst locations)"
    by (simp add: objects_def sl drop_map)
  have a: "length (elements s) \<le> 100" using wellformed_bounds(1) [OF w] by simp
  have b: "\<exists>s1. push newTop s = Inr s1 \<and> slots s1 = tl (slots s) @ [newTop] \<and>
                elements s1 = tl (elements s) @ [snd newTop] \<and>
                length (elements s1) = 100"
    if "length (elements s) = 100" for newTop
    using that i by (simp add: push_wellformed [OF w] map_tl) (simp add: elements_def map_tl)
  have c: "length (elements s) = 100 \<and> snd (hd locations) \<notin> set (elements s)"
    if "length locations = 101 \<and> distinct (map snd locations)"
  proof -
    from that obtain x xs where l: "locations = x # xs" by (cases locations) auto
    with that have "snd x \<notin> set (map snd xs)" by simp
    then show ?thesis using that l e by simp
  qed
  have d: "length (elements s) = 100 \<and> fst (hd locations) \<notin> set (objects s)"
    if "length locations = 101 \<and> distinct (map fst locations)"
  proof -
    from that obtain x xs where l: "locations = x # xs" by (cases locations) auto
    with that have "fst x \<notin> set (map fst xs)" by simp
    then show ?thesis using that l e o by simp
  qed
  from r a sl e b c d show ?thesis by blast
qed

theorem push_evicts_oldest_witness:
  "length (map (\<lambda>n. (Given n, EditorLocation n (0, 0))) [0..<101]) = 101 \<and>
   distinct (map snd (map (\<lambda>n. (Given n, EditorLocation n (0, 0))) [0..<101])) \<and>
   distinct (map fst (map (\<lambda>n. (Given n, EditorLocation n (0, 0))) [0..<101])) \<and>
   (\<exists>s. run (map Push (map (\<lambda>n. (Given n, EditorLocation n (0, 0))) [0..<101])) new_NavigationStack = Inr s \<and>
        length (elements s) = 100 \<and>
        snd (hd (map (\<lambda>n. (Given n, EditorLocation n (0, 0))) [0..<101])) \<notin> set (elements s) \<and>
        fst (hd (map (\<lambda>n. (Given n, EditorLocation n (0, 0))) [0..<101])) \<notin> set (objects s) \<and>
        (\<exists>s1. push (Given 500, EditorLocation 500 (0, 0)) s = Inr s1 \<and>
              elements s1 = tl (elements s) @ [EditorLocation 500 (0, 0)]))"
proof -
  let ?locations = "map (\<lambda>n. (Given n, EditorLocation n (0, 0))) [0..<101]"
  have l: "length ?locations = 101" by simp
  have d: "distinct (map snd ?locations)" by (simp add: distinct_map inj_on_def comp_def)
  have d': "distinct (map fst ?locations)" by (simp add: distinct_map inj_on_def comp_def)
  from push_evicts_oldest [of ?locations] obtain s where
    r: "run (map Push ?locations) new_NavigationStack = Inr s" and
    evict: "\<forall>newTop. length (elements s) = 100 \<longrightarrow>
          (\<exists>s1. push newTop s = Inr s1 \<and> slots s1 = tl (slots s) @ [newTop] \<and>
                elements s1 = tl (elements s) @ [snd newTop] \<and>
                length (elements s1) = 100)" and
    many: "length ?locations = 101 \<and> distinct (map snd ?locations) \<longrightarrow>
          length (elements s) = 100 \<and> snd (hd ?locations) \<notin> set (elements s)" and
    many': "length ?locations = 101 \<and> distinct (map fst ?locations) \<longrightarrow>
          length (elements s) = 100 \<and> fst (hd ?locations) \<notin> set (objects s)"
    by blast
  from many l d have full: "length (elements s) = 100" and gone: "snd (hd ?locations) \<notin> set (elements s)"
    by blast+
  from many' l d' have gone': "fst (hd ?locations) \<notin> set (objects s)" by blast
  from evict full obtain s1 where "push (Given 500, EditorLocation 500 (0, 0)) s = Inr s1"
     and "elements s1 = tl (elements s) @ [snd (Given 500, EditorLocation 500 (0, 0))]"
    by blast
  then have "\<exists>s1. push (Given 500, EditorLocation 500 (0, 0)) s = Inr s1 \<and>
              elements s1 = tl (elements s) @ [EditorLocation 500 (0, 0)]"
    by simp
  with r full gone gone' l d d' show ?thesis by blast
qed

text \<open>The elements a filter rejects at indices up to \<open>c\<close>, counted by index.\<close>

lemma length_filter_take_card:
  "int (length (filter P (take (nat (c + 1)) xs))) =
     int (card {i. i < length xs \<and> int i \<le> c \<and> P (xs ! i)})"
proof -
  have "{i. i < length (take (nat (c + 1)) xs) \<and> P (take (nat (c + 1)) xs ! i)} =
        {i. i < length xs \<and> int i \<le> c \<and> P (xs ! i)}"
    by auto
  then show ?thesis by (simp add: length_filter_conv_card)
qed

lemma rejected_count:
  "int (length (filter (\<lambda>x. \<not> predicate (snd x)) (take (nat (index s + 1)) (slots s)))) =
     int (card {i. i < length (elements s) \<and> int i \<le> index s \<and> \<not> predicate (elements s ! i)})"
proof -
  have "{i. i < length (slots s) \<and> int i \<le> index s \<and> \<not> predicate (snd (slots s ! i))} =
        {i. i < length (elements s) \<and> int i \<le> index s \<and> \<not> predicate (elements s ! i)}"
    by (auto simp: elements_nth)
  then show ?thesis
    using length_filter_take_card [of "\<lambda>x. \<not> predicate (snd x)" "index s" "slots s"] by simp
qed

text \<open>
  C4. \<^verbatim>\<open>filter\<close> keeps exactly the elements that satisfy the predicate, in order; the new
  index is the old one less the number of rejected elements at indices up to the old index,
  clamped below by 0 and above by the new length less one, so it is a position of the new
  array when that is not empty and \<open>-1\<close> (no current element) when it is empty; a change is
  published exactly when the length has changed.
\<close>

theorem filter_nav_effect:
  "elements (filter_nav predicate s) = filter predicate (elements s) \<and>
   slots (filter_nav predicate s) = filter (\<lambda>x. predicate (snd x)) (slots s) \<and>
   index (filter_nav predicate s) =
     min (max (index s - int (card {i. i < length (elements s) \<and> int i \<le> index s \<and>
                                       \<not> predicate (elements s ! i)})) 0)
         (int (length (elements (filter_nav predicate s))) - 1) \<and>
   (elements (filter_nav predicate s) \<noteq> [] \<longrightarrow>
      0 \<le> index (filter_nav predicate s) \<and>
      index (filter_nav predicate s) < int (length (elements (filter_nav predicate s)))) \<and>
   (elements (filter_nav predicate s) = [] \<longrightarrow>
      index (filter_nav predicate s) = - 1 \<and> \<not> hasCurrent (filter_nav predicate s)) \<and>
   changes (filter_nav predicate s) =
     (if length (elements (filter_nav predicate s)) \<noteq> length (elements s)
      then Suc (changes s) else changes s)"
proof -
  let ?t = "filter_nav predicate s"
  have e: "elements ?t = filter predicate (elements s)" by (rule filter_nav_elements)
  have sl: "slots ?t = filter (\<lambda>x. predicate (snd x)) (slots s)" by (simp add: filter_nav_eq)
  have len: "length (elements ?t) = length (filter (\<lambda>x. predicate (snd x)) (slots s))"
    by (simp add: sl)
  have i: "index ?t =
     min (max (index s - int (card {i. i < length (elements s) \<and> int i \<le> index s \<and>
                                       \<not> predicate (elements s ! i)})) 0)
         (int (length (elements ?t)) - 1)"
    unfolding len rejected_count [symmetric] by (simp add: filter_nav_eq)
  have c: "changes ?t = (if length (elements ?t) \<noteq> length (elements s) then Suc (changes s) else changes s)"
    unfolding len by (simp add: filter_nav_eq)
  have ne: "0 \<le> index ?t \<and> index ?t < int (length (elements ?t))" if "elements ?t \<noteq> []"
  proof -
    from that have "0 < length (elements ?t)" by (simp del: length_elements elements_Nil)
    then show ?thesis by (subst (1 2) i) simp
  qed
  have em: "index ?t = - 1 \<and> \<not> hasCurrent ?t" if "elements ?t = []"
  proof -
    from that have "slots ?t = []" by simp
    moreover from that have "length (elements ?t) = 0" by (simp del: length_elements elements_Nil)
    ultimately show ?thesis by (subst i) (simp add: hasCurrent_def isEmpty_def)
  qed
  from e sl i c ne em show ?thesis by blast
qed

theorem filter_nav_effect_witness:
  "elements (filter_nav (\<lambda>location. location \<noteq> EditorLocation 1 (0, 0))
      \<lparr>slots = [(Given 1, EditorLocation 1 (0, 0)), (Created 0, UriLocation ''/a'' (1, 1)),
                (Given 2, EditorLocation 1 (0, 0)), (Given 3, EditorLocation 2 (3, 4))],
       index = 2, changes = 4, created = 1\<rparr>) =
     [UriLocation ''/a'' (1, 1), EditorLocation 2 (3, 4)] \<and>
   index (filter_nav (\<lambda>location. location \<noteq> EditorLocation 1 (0, 0))
      \<lparr>slots = [(Given 1, EditorLocation 1 (0, 0)), (Created 0, UriLocation ''/a'' (1, 1)),
                (Given 2, EditorLocation 1 (0, 0)), (Given 3, EditorLocation 2 (3, 4))],
       index = 2, changes = 4, created = 1\<rparr>) = 0 \<and>
   elements (filter_nav reject_all
      \<lparr>slots = [(Given 1, EditorLocation 1 (0, 0)), (Created 0, UriLocation ''/a'' (1, 1))],
       index = 1, changes = 2, created = 1\<rparr>) = [] \<and>
   index (filter_nav reject_all
      \<lparr>slots = [(Given 1, EditorLocation 1 (0, 0)), (Created 0, UriLocation ''/a'' (1, 1))],
       index = 1, changes = 2, created = 1\<rparr>) = - 1"
proof -
  let ?P = "\<lambda>location. location \<noteq> EditorLocation 1 (0, 0)"
  let ?s = "\<lparr>slots = [(Given 1, EditorLocation 1 (0, 0)), (Created 0, UriLocation ''/a'' (1, 1)),
                (Given 2, EditorLocation 1 (0, 0)), (Given 3, EditorLocation 2 (3, 4))],
       index = 2, changes = 4, created = 1\<rparr>"
  let ?r = "\<lparr>slots = [(Given 1, EditorLocation 1 (0, 0)), (Created 0, UriLocation ''/a'' (1, 1))],
       index = 1, changes = 2, created = 1\<rparr>"
  note a = filter_nav_effect [of ?P ?s]
  note b = filter_nav_effect [of reject_all ?r]
  from a have e: "elements (filter_nav ?P ?s) = [UriLocation ''/a'' (1, 1), EditorLocation 2 (3, 4)]"
    by (simp add: elements_def)
  then have "elements (filter_nav ?P ?s) \<noteq> []" by (simp del: elements_Nil)
  with a have lo: "0 \<le> index (filter_nav ?P ?s)" by blast
  have "index (filter_nav ?P ?s) \<le> 0" by (simp add: filter_nav_eq)
  with lo have i: "index (filter_nav ?P ?s) = 0" by simp
  from b have e2: "elements (filter_nav reject_all ?r) = []" by (simp add: reject_all_def elements_def)
  with b have "index (filter_nav reject_all ?r) = - 1" by blast
  with e i e2 show ?thesis by blast
qed

text \<open>
  C6. \<^verbatim>\<open>previous()\<close> without a previous element and \<^verbatim>\<open>next()\<close> without a next element
  return \<^verbatim>\<open>null\<close> and leave the state as it is, with nothing published. On a well-formed
  stack, \<^verbatim>\<open>previous()\<close> with a previous element moves the index down by one, \<^verbatim>\<open>next()\<close>
  with a next element moves it up by one, and each returns the element then current and
  publishes one change.
\<close>

theorem previous_next_effect:
  "(\<not> hasPrevious s \<longrightarrow> previous s = Inr (None, s)) \<and>
   (\<not> hasNext s \<longrightarrow> next_nav s = Inr (None, s)) \<and>
   (wellformed s \<and> hasPrevious s \<longrightarrow>
      (\<exists>result s1. previous s = Inr (Some result, s1) \<and>
                   s1 = s\<lparr>index := index s - 1, changes := Suc (changes s)\<rparr> \<and>
                   getCurrent s1 = Inr result)) \<and>
   (wellformed s \<and> hasNext s \<longrightarrow>
      (\<exists>result s1. next_nav s = Inr (Some result, s1) \<and>
                   s1 = s\<lparr>index := index s + 1, changes := Suc (changes s)\<rparr> \<and>
                   getCurrent s1 = Inr result))"
proof (intro conjI impI)
  assume "\<not> hasPrevious s"
  then show "previous s = Inr (None, s)" by (simp add: previous_def)
next
  assume "\<not> hasNext s"
  then show "next_nav s = Inr (None, s)" by (simp add: next_nav_def)
next
  assume a: "wellformed s \<and> hasPrevious s"
  then have w: "wellformed s" and h: "0 < index s" by (simp_all add: hasPrevious_def)
  have "getCurrent (s\<lparr>index := index s - 1, changes := Suc (changes s)\<rparr>) =
          Inr (slots s ! nat (index s - 1))"
    using h wellformed_bounds(3) [OF w] by (simp add: getCurrent_def)
  then show "\<exists>result s1. previous s = Inr (Some result, s1) \<and>
                   s1 = s\<lparr>index := index s - 1, changes := Suc (changes s)\<rparr> \<and>
                   getCurrent s1 = Inr result"
    using h by (simp add: previous_wellformed [OF w])
next
  assume a: "wellformed s \<and> hasNext s"
  then have w: "wellformed s" and h: "index s + 1 < int (length (slots s))"
    by (simp_all add: hasNext_def)
  have "getCurrent (s\<lparr>index := index s + 1, changes := Suc (changes s)\<rparr>) =
          Inr (slots s ! nat (index s + 1))"
    using h wellformed_bounds(2) [OF w] by (simp add: getCurrent_def)
  then show "\<exists>result s1. next_nav s = Inr (Some result, s1) \<and>
                   s1 = s\<lparr>index := index s + 1, changes := Suc (changes s)\<rparr> \<and>
                   getCurrent s1 = Inr result"
    using h by (simp add: next_nav_wellformed [OF w])
qed

theorem previous_next_effect_witness:
  "wellformed \<lparr>slots = [(Given 1, EditorLocation 1 (0, 0)), (Given 2, EditorLocation 2 (3, 4)),
                        (Created 0, UriLocation ''/a'' (1, 1))],
               index = 1, changes = 3, created = 1\<rparr> \<and>
   hasPrevious \<lparr>slots = [(Given 1, EditorLocation 1 (0, 0)), (Given 2, EditorLocation 2 (3, 4)),
                         (Created 0, UriLocation ''/a'' (1, 1))],
                index = 1, changes = 3, created = 1\<rparr> \<and>
   hasNext \<lparr>slots = [(Given 1, EditorLocation 1 (0, 0)), (Given 2, EditorLocation 2 (3, 4)),
                     (Created 0, UriLocation ''/a'' (1, 1))],
            index = 1, changes = 3, created = 1\<rparr> \<and>
   previous \<lparr>slots = [(Given 1, EditorLocation 1 (0, 0)), (Given 2, EditorLocation 2 (3, 4)),
                      (Created 0, UriLocation ''/a'' (1, 1))],
             index = 1, changes = 3, created = 1\<rparr> =
     Inr (Some (Given 1, EditorLocation 1 (0, 0)),
          \<lparr>slots = [(Given 1, EditorLocation 1 (0, 0)), (Given 2, EditorLocation 2 (3, 4)),
                    (Created 0, UriLocation ''/a'' (1, 1))],
           index = 0, changes = 4, created = 1\<rparr>) \<and>
   next_nav \<lparr>slots = [(Given 1, EditorLocation 1 (0, 0)), (Given 2, EditorLocation 2 (3, 4)),
                      (Created 0, UriLocation ''/a'' (1, 1))],
             index = 1, changes = 3, created = 1\<rparr> =
     Inr (Some (Created 0, UriLocation ''/a'' (1, 1)),
          \<lparr>slots = [(Given 1, EditorLocation 1 (0, 0)), (Given 2, EditorLocation 2 (3, 4)),
                    (Created 0, UriLocation ''/a'' (1, 1))],
           index = 2, changes = 4, created = 1\<rparr>) \<and>
   \<not> hasPrevious \<lparr>slots = [(Given 1, EditorLocation 1 (0, 0))], index = 0, changes = 1, created = 0\<rparr> \<and>
   \<not> hasNext \<lparr>slots = [(Given 1, EditorLocation 1 (0, 0))], index = 0, changes = 1, created = 0\<rparr> \<and>
   previous \<lparr>slots = [(Given 1, EditorLocation 1 (0, 0))], index = 0, changes = 1, created = 0\<rparr> =
     Inr (None, \<lparr>slots = [(Given 1, EditorLocation 1 (0, 0))], index = 0, changes = 1, created = 0\<rparr>) \<and>
   next_nav \<lparr>slots = [(Given 1, EditorLocation 1 (0, 0))], index = 0, changes = 1, created = 0\<rparr> =
     Inr (None, \<lparr>slots = [(Given 1, EditorLocation 1 (0, 0))], index = 0, changes = 1, created = 0\<rparr>)"
proof -
  let ?s = "\<lparr>slots = [(Given 1, EditorLocation 1 (0, 0)), (Given 2, EditorLocation 2 (3, 4)),
                      (Created 0, UriLocation ''/a'' (1, 1))],
             index = 1, changes = 3, created = 1\<rparr>"
  let ?t = "\<lparr>slots = [(Given 1, EditorLocation 1 (0, 0))], index = 0, changes = 1, created = 0\<rparr>"
  have w: "wellformed ?s" by (simp add: wellformed_slots)
  have hp: "hasPrevious ?s" and hn: "hasNext ?s" by (simp_all add: hasPrevious_def hasNext_def)
  have np: "\<not> hasPrevious ?t" and nn: "\<not> hasNext ?t" by (simp_all add: hasPrevious_def hasNext_def)
  note a = previous_next_effect [of ?s]
  note b = previous_next_effect [of ?t]
  from a w hp obtain r1 s1 where "previous ?s = Inr (Some r1, s1)"
    and "s1 = ?s\<lparr>index := index ?s - 1, changes := Suc (changes ?s)\<rparr>" and "getCurrent s1 = Inr r1"
    by blast
  then have p: "previous ?s = Inr (Some (Given 1, EditorLocation 1 (0, 0)),
          \<lparr>slots = [(Given 1, EditorLocation 1 (0, 0)), (Given 2, EditorLocation 2 (3, 4)),
                    (Created 0, UriLocation ''/a'' (1, 1))],
           index = 0, changes = 4, created = 1\<rparr>)"
    by (auto simp: getCurrent_def)
  from a w hn obtain r2 s2 where "next_nav ?s = Inr (Some r2, s2)"
    and "s2 = ?s\<lparr>index := index ?s + 1, changes := Suc (changes ?s)\<rparr>" and "getCurrent s2 = Inr r2"
    by blast
  then have n: "next_nav ?s = Inr (Some (Created 0, UriLocation ''/a'' (1, 1)),
          \<lparr>slots = [(Given 1, EditorLocation 1 (0, 0)), (Given 2, EditorLocation 2 (3, 4)),
                    (Created 0, UriLocation ''/a'' (1, 1))],
           index = 2, changes = 4, created = 1\<rparr>)"
    by (auto simp: getCurrent_def)
  from b np have p0: "previous ?t = Inr (None, ?t)" by blast
  from b nn have n0: "next_nav ?t = Inr (None, ?t)" by blast
  from w hp hn p n np nn p0 n0 show ?thesis by blast
qed

text \<open>What the assignment to the position of one object does to the two views of the array.\<close>

lemma objects_assign_bufferPosition:
  "map fst (assign_bufferPosition current p xs) = map fst xs"
  by (induction xs) (simp_all add: assign_bufferPosition_def)

lemma elements_assign_bufferPosition:
  "i < length xs \<Longrightarrow>
   snd (assign_bufferPosition current p xs ! i) =
     (if fst (xs ! i) = current then set_bufferPosition (snd (xs ! i)) p else snd (xs ! i))"
  by (simp add: assign_bufferPosition_def)

text \<open>
  C5, as the code has it. On a well-formed stack whose current element is an editor
  location of the editor of \<^verbatim>\<open>newTop\<close>, \<^verbatim>\<open>attemptUpdate(newTop)\<close> succeeds and assigns the
  new buffer position to the current location object: every slot that holds this object
  shows the new position, every other slot is as before, and so are the objects in the
  slots, the length, the index and the number of published changes. When no other slot holds
  the current object, only the current element changes. When the stack is empty or the
  current element is not an editor location of that editor, the call is \<^verbatim>\<open>push(newTop)\<close>.
  \<^verbatim>\<open>getCurrentEditor\<close> is the editor of the current element when that is an editor
  location, and \<^verbatim>\<open>null\<close> otherwise.
\<close>

theorem attemptUpdate_effect:
  "wellformed s \<Longrightarrow>
   (elements s \<noteq> [] \<and> elements s ! nat (index s) = EditorLocation e q \<longrightarrow>
      (\<exists>s1. attemptUpdate (ob, EditorLocation e p) s = Inr s1 \<and>
            length (elements s1) = length (elements s) \<and>
            (\<forall>i < length (elements s).
               elements s1 ! i =
                 (if objects s ! i = objects s ! nat (index s)
                  then set_bufferPosition (elements s ! i) p else elements s ! i)) \<and>
            elements s1 ! nat (index s) = EditorLocation e p \<and>
            ((\<forall>i < length (elements s). i \<noteq> nat (index s) \<longrightarrow>
                 objects s ! i \<noteq> objects s ! nat (index s)) \<longrightarrow>
               elements s1 = (elements s)[nat (index s) := EditorLocation e p]) \<and>
            objects s1 = objects s \<and> index s1 = index s \<and> changes s1 = changes s)) \<and>
   (elements s = [] \<or> (\<forall>q. elements s ! nat (index s) \<noteq> EditorLocation e q) \<longrightarrow>
      attemptUpdate (ob, EditorLocation e p) s = push (ob, EditorLocation e p) s) \<and>
   getCurrentEditor s =
     Inr (if elements s = [] then None
          else case elements s ! nat (index s) of
                 EditorLocation e1 q1 \<Rightarrow> Some e1
               | UriLocation u q1 \<Rightarrow> None)"
proof (intro conjI impI)
  assume w: "wellformed s" and "elements s \<noteq> [] \<and> elements s ! nat (index s) = EditorLocation e q"
  then have ne: "slots s \<noteq> []" and cur: "elements s ! nat (index s) = EditorLocation e q"
    by simp_all
  have k: "nat (index s) < length (slots s)"
    using wellformed_bounds(3) [OF w] wellformed_bounds(5) [OF w ne] by linarith
  let ?c = "fst (slots s ! nat (index s))"
  let ?t = "s\<lparr>slots := assign_bufferPosition ?c p (slots s)\<rparr>"
  have au: "attemptUpdate (ob, EditorLocation e p) s = Inr ?t"
    by (rule attemptUpdate_same [OF w ne cur])
  have c: "objects s ! nat (index s) = ?c" using k by (rule objects_nth)
  have pw: "elements ?t ! i =
              (if objects s ! i = objects s ! nat (index s)
               then set_bufferPosition (elements s ! i) p else elements s ! i)"
    if "i < length (elements s)" for i
    using that by (simp add: c elements_assign_bufferPosition elements_nth objects_nth)
  have at: "elements ?t ! nat (index s) = EditorLocation e p"
    using pw [of "nat (index s)"] k cur by simp
  have alone: "elements ?t = (elements s)[nat (index s) := EditorLocation e p]"
    if sep: "\<forall>i < length (elements s). i \<noteq> nat (index s) \<longrightarrow> objects s ! i \<noteq> objects s ! nat (index s)"
  proof (rule nth_equalityI)
    show "length (elements ?t) = length ((elements s)[nat (index s) := EditorLocation e p])" by simp
  next
    fix i assume "i < length (elements ?t)"
    then have i: "i < length (elements s)" by simp
    show "elements ?t ! i = (elements s)[nat (index s) := EditorLocation e p] ! i"
    proof (cases "i = nat (index s)")
      case True
      then show ?thesis using at i by simp
    next
      case False
      with sep i have "objects s ! i \<noteq> objects s ! nat (index s)" by blast
      then show ?thesis using pw [OF i] False by simp
    qed
  qed
  have "length (elements ?t) = length (elements s)" by simp
  moreover have "objects ?t = objects s"
    by (simp add: objects_assign_bufferPosition) (simp add: objects_def)
  moreover have "index ?t = index s" "changes ?t = changes s" by simp_all
  ultimately show "\<exists>s1. attemptUpdate (ob, EditorLocation e p) s = Inr s1 \<and>
            length (elements s1) = length (elements s) \<and>
            (\<forall>i < length (elements s).
               elements s1 ! i =
                 (if objects s ! i = objects s ! nat (index s)
                  then set_bufferPosition (elements s ! i) p else elements s ! i)) \<and>
            elements s1 ! nat (index s) = EditorLocation e p \<and>
            ((\<forall>i < length (elements s). i \<noteq> nat (index s) \<longrightarrow>
                 objects s ! i \<noteq> objects s ! nat (index s)) \<longrightarrow>
               elements s1 = (elements s)[nat (index s) := EditorLocation e p]) \<and>
            objects s1 = objects s \<and> index s1 = index s \<and> changes s1 = changes s"
    using au pw at alone by blast
next
  assume w: "wellformed s"
    and other: "elements s = [] \<or> (\<forall>q. elements s ! nat (index s) \<noteq> EditorLocation e q)"
  show "attemptUpdate (ob, EditorLocation e p) s = push (ob, EditorLocation e p) s"
  proof (cases "slots s = []")
    case True
    then show ?thesis by (rule attemptUpdate_empty)
  next
    case False
    then have "elements s \<noteq> []" by simp
    with other have "\<And>q. elements s ! nat (index s) \<noteq> EditorLocation e q" by blast
    then show ?thesis by (rule attemptUpdate_other [OF w False])
  qed
next
  assume w: "wellformed s"
  show "getCurrentEditor s =
     Inr (if elements s = [] then None
          else case elements s ! nat (index s) of
                 EditorLocation e1 q1 \<Rightarrow> Some e1
               | UriLocation u q1 \<Rightarrow> None)"
  proof (cases "slots s = []")
    case True
    then show ?thesis by (simp add: getCurrentEditor_empty)
  next
    case False
    then show ?thesis by (simp add: getCurrentEditor_wellformed [OF w False])
  qed
qed

theorem attemptUpdate_effect_witness:
  "wellformed \<lparr>slots = [(Given 1, EditorLocation 1 (0, 0)), (Given 2, EditorLocation 2 (3, 4)),
                        (Given 1, EditorLocation 1 (0, 0))],
               index = 2, changes = 3, created = 0\<rparr> \<and>
   (\<exists>s1. attemptUpdate (Given 3, EditorLocation 1 (9, 9))
            \<lparr>slots = [(Given 1, EditorLocation 1 (0, 0)), (Given 2, EditorLocation 2 (3, 4)),
                      (Given 1, EditorLocation 1 (0, 0))],
             index = 2, changes = 3, created = 0\<rparr> = Inr s1 \<and>
         elements s1 ! 0 = EditorLocation 1 (9, 9) \<and>
         elements s1 ! 1 = EditorLocation 2 (3, 4) \<and>
         elements s1 ! 2 = EditorLocation 1 (9, 9) \<and>
         length (elements s1) = 3 \<and> index s1 = 2 \<and> changes s1 = 3) \<and>
   wellformed \<lparr>slots = [(Given 1, EditorLocation 1 (0, 0)), (Given 2, EditorLocation 2 (3, 4))],
               index = 1, changes = 2, created = 0\<rparr> \<and>
   (\<exists>s1. attemptUpdate (Given 3, EditorLocation 2 (9, 9))
            \<lparr>slots = [(Given 1, EditorLocation 1 (0, 0)), (Given 2, EditorLocation 2 (3, 4))],
             index = 1, changes = 2, created = 0\<rparr> = Inr s1 \<and>
         elements s1 = [EditorLocation 1 (0, 0), EditorLocation 2 (9, 9)] \<and>
         index s1 = 1 \<and> changes s1 = 2) \<and>
   attemptUpdate (Given 3, EditorLocation 1 (9, 9))
       \<lparr>slots = [(Given 1, EditorLocation 1 (0, 0)), (Given 2, EditorLocation 2 (3, 4))],
        index = 1, changes = 2, created = 0\<rparr> =
     push (Given 3, EditorLocation 1 (9, 9))
       \<lparr>slots = [(Given 1, EditorLocation 1 (0, 0)), (Given 2, EditorLocation 2 (3, 4))],
        index = 1, changes = 2, created = 0\<rparr> \<and>
   getCurrentEditor
       \<lparr>slots = [(Given 1, EditorLocation 1 (0, 0)), (Given 2, EditorLocation 2 (3, 4))],
        index = 1, changes = 2, created = 0\<rparr> = Inr (Some 2)"
proof -
  let ?a = "\<lparr>slots = [(Given 1, EditorLocation 1 (0, 0)), (Given 2, EditorLocation 2 (3, 4)),
                      (Given 1, EditorLocation 1 (0, 0))],
             index = 2, changes = 3, created = 0\<rparr>"
  let ?s = "\<lparr>slots = [(Given 1, EditorLocation 1 (0, 0)), (Given 2, EditorLocation 2 (3, 4))],
             index = 1, changes = 2, created = 0\<rparr>"
  have wa: "wellformed ?a" and ws: "wellformed ?s" by (simp_all add: wellformed_slots)

  have "elements ?a \<noteq> [] \<and> elements ?a ! nat (index ?a) = EditorLocation 1 (0, 0)"
    by (simp add: elements_def)
  with attemptUpdate_effect [OF wa, of 1 "(0, 0)" "Given 3" "(9, 9)"]
  obtain s1 where a1: "attemptUpdate (Given 3, EditorLocation 1 (9, 9)) ?a = Inr s1"
    and a2: "length (elements s1) = length (elements ?a)"
    and a3: "\<forall>i < length (elements ?a).
               elements s1 ! i =
                 (if objects ?a ! i = objects ?a ! nat (index ?a)
                  then set_bufferPosition (elements ?a ! i) (9, 9) else elements ?a ! i)"
    and a4: "index s1 = index ?a" "changes s1 = changes ?a"
    by blast
  from a3 have "(0::nat) < length (elements ?a) \<longrightarrow> elements s1 ! 0 =
                 (if objects ?a ! 0 = objects ?a ! nat (index ?a)
                  then set_bufferPosition (elements ?a ! 0) (9, 9) else elements ?a ! 0)" by blast
  then have b0: "elements s1 ! 0 = EditorLocation 1 (9, 9)" by (simp add: elements_def objects_def)
  from a3 have "(1::nat) < length (elements ?a) \<longrightarrow> elements s1 ! 1 =
                 (if objects ?a ! 1 = objects ?a ! nat (index ?a)
                  then set_bufferPosition (elements ?a ! 1) (9, 9) else elements ?a ! 1)" by blast
  then have b1: "elements s1 ! 1 = EditorLocation 2 (3, 4)" by (simp add: elements_def objects_def)
  from a3 have "(2::nat) < length (elements ?a) \<longrightarrow> elements s1 ! 2 =
                 (if objects ?a ! 2 = objects ?a ! nat (index ?a)
                  then set_bufferPosition (elements ?a ! 2) (9, 9) else elements ?a ! 2)" by blast
  then have b2: "elements s1 ! 2 = EditorLocation 1 (9, 9)" by (simp add: elements_def objects_def)
  from a2 a4 have b3: "length (elements s1) = 3" "index s1 = 2" "changes s1 = 3" by (simp_all add: elements_def)
  from a1 b0 b1 b2 b3 have shared:
    "\<exists>s1. attemptUpdate (Given 3, EditorLocation 1 (9, 9)) ?a = Inr s1 \<and>
         elements s1 ! 0 = EditorLocation 1 (9, 9) \<and>
         elements s1 ! 1 = EditorLocation 2 (3, 4) \<and>
         elements s1 ! 2 = EditorLocation 1 (9, 9) \<and>
         length (elements s1) = 3 \<and> index s1 = 2 \<and> changes s1 = 3"
    by blast

  have cur: "elements ?s \<noteq> [] \<and> elements ?s ! nat (index ?s) = EditorLocation 2 (3, 4)"
    by (simp add: elements_def)
  have sep: "\<forall>i < length (elements ?s). i \<noteq> nat (index ?s) \<longrightarrow>
               objects ?s ! i \<noteq> objects ?s ! nat (index ?s)"
    by (simp add: objects_def less_Suc_eq)
  from attemptUpdate_effect [OF ws, of 2 "(3, 4)" "Given 3" "(9, 9)"] cur
  obtain s2 where c1: "attemptUpdate (Given 3, EditorLocation 2 (9, 9)) ?s = Inr s2"
    and c2: "(\<forall>i < length (elements ?s). i \<noteq> nat (index ?s) \<longrightarrow>
                 objects ?s ! i \<noteq> objects ?s ! nat (index ?s)) \<longrightarrow>
               elements s2 = (elements ?s)[nat (index ?s) := EditorLocation 2 (9, 9)]"
    and c3: "index s2 = index ?s" "changes s2 = changes ?s"
    by blast
  from c2 sep have "elements s2 = (elements ?s)[nat (index ?s) := EditorLocation 2 (9, 9)]"
    by blast
  then have "elements s2 = [EditorLocation 1 (0, 0), EditorLocation 2 (9, 9)]"
    by (simp add: elements_def)
  with c1 c3 have single:
    "\<exists>s1. attemptUpdate (Given 3, EditorLocation 2 (9, 9)) ?s = Inr s1 \<and>
         elements s1 = [EditorLocation 1 (0, 0), EditorLocation 2 (9, 9)] \<and>
         index s1 = 1 \<and> changes s1 = 2"
    by simp

  have "\<forall>q. elements ?s ! nat (index ?s) \<noteq> EditorLocation 1 q" by (simp add: elements_def)
  with attemptUpdate_effect [OF ws, of 1 "(0, 0)" "Given 3" "(9, 9)"]
  have other: "attemptUpdate (Given 3, EditorLocation 1 (9, 9)) ?s =
               push (Given 3, EditorLocation 1 (9, 9)) ?s"
    by blast
  from attemptUpdate_effect [OF ws, of 1 "(0, 0)" "Given 3" "(9, 9)"]
  have ge: "getCurrentEditor ?s = Inr (Some 2)" by (simp add: elements_def)
  from wa shared ws single other ge show ?thesis by blast
qed

text \<open>
  C5 as stated fails when the current location object also sits in another slot. After
  \<^verbatim>\<open>push(a)\<close> and again \<^verbatim>\<open>push(a)\<close> of one object \<open>a\<close> of editor 1 at \<open>(0, 0)\<close>, the call
  \<^verbatim>\<open>attemptUpdate\<close> with a location of editor 1 at \<open>(9, 9)\<close> changes the position in both
  slots, not only in the current one.
\<close>

theorem attemptUpdate_counterexample:
  "run [Push (Given 1, EditorLocation 1 (0, 0)), Push (Given 1, EditorLocation 1 (0, 0))]
       new_NavigationStack =
     Inr \<lparr>slots = [(Given 1, EditorLocation 1 (0, 0)), (Given 1, EditorLocation 1 (0, 0))],
          index = 1, changes = 2, created = 0\<rparr> \<and>
   attemptUpdate (Given 2, EditorLocation 1 (9, 9))
       \<lparr>slots = [(Given 1, EditorLocation 1 (0, 0)), (Given 1, EditorLocation 1 (0, 0))],
        index = 1, changes = 2, created = 0\<rparr> =
     Inr \<lparr>slots = [(Given 1, EditorLocation 1 (9, 9)), (Given 1, EditorLocation 1 (9, 9))],
          index = 1, changes = 2, created = 0\<rparr> \<and>
   elements \<lparr>slots = [(Given 1, EditorLocation 1 (9, 9)), (Given 1, EditorLocation 1 (9, 9))],
             index = 1, changes = 2, created = 0\<rparr> =
     [EditorLocation 1 (9, 9), EditorLocation 1 (9, 9)] \<and>
   elements \<lparr>slots = [(Given 1, EditorLocation 1 (9, 9)), (Given 1, EditorLocation 1 (9, 9))],
             index = 1, changes = 2, created = 0\<rparr> \<noteq>
     (elements \<lparr>slots = [(Given 1, EditorLocation 1 (0, 0)), (Given 1, EditorLocation 1 (0, 0))],
               index = 1, changes = 2, created = 0\<rparr>)[1 := EditorLocation 1 (9, 9)]"
  by (simp add: nav_defs)

text \<open>
  C9. \<^verbatim>\<open>editorOpened(editor)\<close> leaves the state as it is when the editor has no path.
  Otherwise every uri location with that path becomes an editor location of the editor
  with the same buffer position, every other element stays, and in both cases the index,
  the length and the number of published changes are as before.
\<close>

theorem editorOpened_effect:
  "(getPath ed = None \<longrightarrow> editorOpened getPath ed s = s) \<and>
   (\<forall>path. getPath ed = Some path \<longrightarrow>
      (\<forall>i < length (elements s).
         elements (editorOpened getPath ed s) ! i =
           (case elements s ! i of
              UriLocation u p \<Rightarrow> if u = path then EditorLocation ed p else UriLocation u p
            | EditorLocation e p \<Rightarrow> EditorLocation e p))) \<and>
   length (elements (editorOpened getPath ed s)) = length (elements s) \<and>
   index (editorOpened getPath ed s) = index s \<and>
   changes (editorOpened getPath ed s) = changes s"
proof (cases "getPath ed")
  case None
  then show ?thesis by (simp add: editorOpened_def)
next
  case (Some path)
  then have eq: "elements (editorOpened getPath ed s) = map (opened_location ed path) (elements s) \<and>
         index (editorOpened getPath ed s) = index s \<and>
         changes (editorOpened getPath ed s) = changes s"
    by (rule editorOpened_Some)
  then have e: "elements (editorOpened getPath ed s) = map (opened_location ed path) (elements s)"
    by blast
  have pw: "elements (editorOpened getPath ed s) ! i =
           (case elements s ! i of
              UriLocation u p \<Rightarrow> if u = path then EditorLocation ed p else UriLocation u p
            | EditorLocation e p \<Rightarrow> EditorLocation e p)"
    if "i < length (elements s)" for i
    using that unfolding e by (cases "elements s ! i") (simp_all del: length_elements)
  have len: "length (elements (editorOpened getPath ed s)) = length (elements s)"
    unfolding e by (simp del: length_elements)
  from Some eq pw len show ?thesis by simp
qed

theorem editorOpened_effect_witness:
  "unsaved 1 = None \<and>
   editorOpened unsaved 1
       \<lparr>slots = [(Created 0, UriLocation ''/a'' (1, 1)), (Given 2, EditorLocation 2 (3, 4)),
                 (Created 1, UriLocation ''/b'' (0, 7))],
        index = 2, changes = 3, created = 2\<rparr> =
     \<lparr>slots = [(Created 0, UriLocation ''/a'' (1, 1)), (Given 2, EditorLocation 2 (3, 4)),
               (Created 1, UriLocation ''/b'' (0, 7))],
      index = 2, changes = 3, created = 2\<rparr> \<and>
   saved_at ''/a'' 1 = Some ''/a'' \<and>
   elements (editorOpened (saved_at ''/a'') 1
       \<lparr>slots = [(Created 0, UriLocation ''/a'' (1, 1)), (Given 2, EditorLocation 2 (3, 4)),
                 (Created 1, UriLocation ''/b'' (0, 7))],
        index = 2, changes = 3, created = 2\<rparr>) ! 0 = EditorLocation 1 (1, 1) \<and>
   elements (editorOpened (saved_at ''/a'') 1
       \<lparr>slots = [(Created 0, UriLocation ''/a'' (1, 1)), (Given 2, EditorLocation 2 (3, 4)),
                 (Created 1, UriLocation ''/b'' (0, 7))],
        index = 2, changes = 3, created = 2\<rparr>) ! 1 = EditorLocation 2 (3, 4) \<and>
   elements (editorOpened (saved_at ''/a'') 1
       \<lparr>slots = [(Created 0, UriLocation ''/a'' (1, 1)), (Given 2, EditorLocation 2 (3, 4)),
                 (Created 1, UriLocation ''/b'' (0, 7))],
        index = 2, changes = 3, created = 2\<rparr>) ! 2 = UriLocation ''/b'' (0, 7) \<and>
   length (elements (editorOpened (saved_at ''/a'') 1
       \<lparr>slots = [(Created 0, UriLocation ''/a'' (1, 1)), (Given 2, EditorLocation 2 (3, 4)),
                 (Created 1, UriLocation ''/b'' (0, 7))],
        index = 2, changes = 3, created = 2\<rparr>)) = 3 \<and>
   index (editorOpened (saved_at ''/a'') 1
       \<lparr>slots = [(Created 0, UriLocation ''/a'' (1, 1)), (Given 2, EditorLocation 2 (3, 4)),
                 (Created 1, UriLocation ''/b'' (0, 7))],
        index = 2, changes = 3, created = 2\<rparr>) = 2 \<and>
   changes (editorOpened (saved_at ''/a'') 1
       \<lparr>slots = [(Created 0, UriLocation ''/a'' (1, 1)), (Given 2, EditorLocation 2 (3, 4)),
                 (Created 1, UriLocation ''/b'' (0, 7))],
        index = 2, changes = 3, created = 2\<rparr>) = 3"
proof -
  let ?s = "\<lparr>slots = [(Created 0, UriLocation ''/a'' (1, 1)), (Given 2, EditorLocation 2 (3, 4)),
                     (Created 1, UriLocation ''/b'' (0, 7))],
             index = 2, changes = 3, created = 2\<rparr>"
  let ?t = "editorOpened (saved_at ''/a'') 1 ?s"
  have n: "unsaved 1 = None" by (simp add: unsaved_def)
  have p: "saved_at ''/a'' 1 = Some ''/a''" by (simp add: saved_at_def)
  from editorOpened_effect [of unsaved 1 ?s] n have a: "editorOpened unsaved 1 ?s = ?s" by blast
  note b = editorOpened_effect [of "saved_at ''/a''" 1 ?s]
  from b p have pw: "\<forall>i < length (elements ?s).
         elements ?t ! i =
           (case elements ?s ! i of
              UriLocation u p \<Rightarrow> if u = ''/a'' then EditorLocation 1 p else UriLocation u p
            | EditorLocation e p \<Rightarrow> EditorLocation e p)"
    by blast
  from b have "length (elements ?t) = length (elements ?s)" and "index ?t = index ?s"
    and "changes ?t = changes ?s" by blast+
  then have len: "length (elements ?t) = 3" and i: "index ?t = 2" and c: "changes ?t = 3"
    by (simp_all del: length_elements add: elements_def)
  from pw have "(0::nat) < length (elements ?s) \<longrightarrow> elements ?t ! 0 = (case elements ?s ! 0 of
              UriLocation u p \<Rightarrow> if u = ''/a'' then EditorLocation 1 p else UriLocation u p
            | EditorLocation e p \<Rightarrow> EditorLocation e p)" by blast
  then have e0: "elements ?t ! 0 = EditorLocation 1 (1, 1)" by (simp add: elements_nth)
  from pw have "(1::nat) < length (elements ?s) \<longrightarrow> elements ?t ! 1 = (case elements ?s ! 1 of
              UriLocation u p \<Rightarrow> if u = ''/a'' then EditorLocation 1 p else UriLocation u p
            | EditorLocation e p \<Rightarrow> EditorLocation e p)" by blast
  then have e1: "elements ?t ! 1 = EditorLocation 2 (3, 4)" by (simp add: elements_nth)
  from pw have "(2::nat) < length (elements ?s) \<longrightarrow> elements ?t ! 2 = (case elements ?s ! 2 of
              UriLocation u p \<Rightarrow> if u = ''/a'' then EditorLocation 1 p else UriLocation u p
            | EditorLocation e p \<Rightarrow> EditorLocation e p)" by blast
  then have e2: "elements ?t ! 2 = UriLocation ''/b'' (0, 7)" by (simp add: elements_nth)
  from n a p e0 e1 e2 len i c show ?thesis by blast
qed

text \<open>Closing undoes opening on every location, and is the identity off the editor's own locations.\<close>

lemma closed_opened_location:
  "closed_location ed path (opened_location ed path location) = closed_location ed path location"
  by (cases location) simp_all

lemma closed_location_id:
  "closed_location ed path location = location \<longleftrightarrow> (\<forall>p. location \<noteq> EditorLocation ed p)"
  by (cases location) auto

lemma map_closed_location_id:
  "map (closed_location ed path) xs = xs \<longleftrightarrow> (\<forall>p. EditorLocation ed p \<notin> set xs)"
proof -
  have "map (closed_location ed path) xs = xs \<longleftrightarrow> (\<forall>x \<in> set xs. closed_location ed path x = x)"
    by (induction xs) auto
  then show ?thesis by (auto simp: closed_location_id)
qed

text \<open>
  C7, as the code has it. For an editor with a non-empty path, \<^verbatim>\<open>editorOpened(editor)\<close>
  followed by \<^verbatim>\<open>editorClosed(editor)\<close> leaves every element that was a uri location as it
  was, with its uri and position, and leaves the length, the index and the number of
  published changes as they were. The pair of calls leaves the elements, the index and the
  published changes that \<^verbatim>\<open>editorClosed(editor)\<close> alone leaves, so the elements as a whole
  are as before exactly when the array held no editor location of that editor: such a
  location comes back as a uri location.
\<close>

theorem editorOpened_editorClosed_roundtrip:
  "getPath ed = Some path \<Longrightarrow> path \<noteq> '''' \<Longrightarrow>
   (\<forall>i < length (elements s). \<forall>u p.
      elements s ! i = UriLocation u p \<longrightarrow>
      elements (editorClosed getPath ed (editorOpened getPath ed s)) ! i = UriLocation u p) \<and>
   length (elements (editorClosed getPath ed (editorOpened getPath ed s))) = length (elements s) \<and>
   index (editorClosed getPath ed (editorOpened getPath ed s)) = index s \<and>
   changes (editorClosed getPath ed (editorOpened getPath ed s)) = changes s \<and>
   elements (editorClosed getPath ed (editorOpened getPath ed s)) = elements (editorClosed getPath ed s) \<and>
   index (editorClosed getPath ed (editorOpened getPath ed s)) = index (editorClosed getPath ed s) \<and>
   changes (editorClosed getPath ed (editorOpened getPath ed s)) = changes (editorClosed getPath ed s) \<and>
   (elements (editorClosed getPath ed (editorOpened getPath ed s)) = elements s \<longleftrightarrow>
      (\<forall>p. EditorLocation ed p \<notin> set (elements s)))"
proof -
  assume gp: "getPath ed = Some path" and ne: "path \<noteq> ''''"
  let ?o = "editorOpened getPath ed s"
  let ?t = "editorClosed getPath ed ?o"
  from gp have o: "elements ?o = map (opened_location ed path) (elements s) \<and>
         index ?o = index s \<and> changes ?o = changes s"
    by (rule editorOpened_Some)
  have c: "elements (editorClosed getPath ed r) = map (closed_location ed path) (elements r) \<and>
         index (editorClosed getPath ed r) = index r \<and>
         changes (editorClosed getPath ed r) = changes r" for r
    using gp ne by (rule editorClosed_Some)
  have t: "elements ?t = map (closed_location ed path) (elements s)"
    using c [of ?o] o by (simp add: closed_opened_location)
  have ti: "index ?t = index s" and tc: "changes ?t = changes s"
    using c [of ?o] o by simp_all
  have uris: "elements ?t ! i = UriLocation u p"
    if "i < length (elements s)" and "elements s ! i = UriLocation u p" for i u p
    using that unfolding t by (simp del: length_elements)
  have same: "elements ?t = elements s \<longleftrightarrow> (\<forall>p. EditorLocation ed p \<notin> set (elements s))"
    unfolding t by (rule map_closed_location_id)
  have len: "length (elements ?t) = length (elements s)"
    unfolding t by (simp del: length_elements)
  have alone: "elements ?t = elements (editorClosed getPath ed s)"
    "index ?t = index (editorClosed getPath ed s)"
    "changes ?t = changes (editorClosed getPath ed s)"
    using c [of s] t ti tc by simp_all
  from uris len ti tc alone same show ?thesis by blast
qed

theorem editorOpened_editorClosed_roundtrip_witness:
  "saved_at ''/a'' 1 = Some ''/a'' \<and> ''/a'' \<noteq> '''' \<and>
   elements (editorClosed (saved_at ''/a'') 1 (editorOpened (saved_at ''/a'') 1
       \<lparr>slots = [(Created 0, UriLocation ''/a'' (1, 1)), (Given 2, EditorLocation 2 (3, 4)),
                 (Created 1, UriLocation ''/b'' (0, 7))],
        index = 1, changes = 3, created = 2\<rparr>)) =
     [UriLocation ''/a'' (1, 1), EditorLocation 2 (3, 4), UriLocation ''/b'' (0, 7)] \<and>
   index (editorClosed (saved_at ''/a'') 1 (editorOpened (saved_at ''/a'') 1
       \<lparr>slots = [(Created 0, UriLocation ''/a'' (1, 1)), (Given 2, EditorLocation 2 (3, 4)),
                 (Created 1, UriLocation ''/b'' (0, 7))],
        index = 1, changes = 3, created = 2\<rparr>)) = 1 \<and>
   changes (editorClosed (saved_at ''/a'') 1 (editorOpened (saved_at ''/a'') 1
       \<lparr>slots = [(Created 0, UriLocation ''/a'' (1, 1)), (Given 2, EditorLocation 2 (3, 4)),
                 (Created 1, UriLocation ''/b'' (0, 7))],
        index = 1, changes = 3, created = 2\<rparr>)) = 3 \<and>
   elements (editorClosed (saved_at ''/a'') 1 (editorOpened (saved_at ''/a'') 1
       \<lparr>slots = [(Created 0, UriLocation ''/a'' (1, 1)), (Given 2, EditorLocation 2 (3, 4)),
                 (Created 1, UriLocation ''/b'' (0, 7))],
        index = 1, changes = 3, created = 2\<rparr>)) ! 0 = UriLocation ''/a'' (1, 1)"
proof -
  let ?s = "\<lparr>slots = [(Created 0, UriLocation ''/a'' (1, 1)), (Given 2, EditorLocation 2 (3, 4)),
                     (Created 1, UriLocation ''/b'' (0, 7))],
             index = 1, changes = 3, created = 2\<rparr>"
  let ?t = "editorClosed (saved_at ''/a'') 1 (editorOpened (saved_at ''/a'') 1 ?s)"
  have p: "saved_at ''/a'' 1 = Some ''/a''" by (simp add: saved_at_def)
  have ne: "''/a'' \<noteq> ''''" by simp
  note r = editorOpened_editorClosed_roundtrip
    [where getPath = "saved_at ''/a''" and ed = 1 and path = "''/a''" and s = ?s, OF p ne]
  have es: "elements ?s = [UriLocation ''/a'' (1, 1), EditorLocation 2 (3, 4), UriLocation ''/b'' (0, 7)]"
    by (simp add: elements_def)
  have "\<forall>p. EditorLocation 1 p \<notin> set (elements ?s)" by (simp add: elements_def)
  with r have "elements ?t = elements ?s" by blast
  then have same: "elements ?t = [UriLocation ''/a'' (1, 1), EditorLocation 2 (3, 4), UriLocation ''/b'' (0, 7)]"
    by (simp only: es)
  from r have "index ?t = index ?s" and "changes ?t = changes ?s" by blast+
  then have ic: "index ?t = 1" "changes ?t = 3" by simp_all
  from r have "0 < length (elements ?s) \<longrightarrow> (\<forall>u p. elements ?s ! 0 = UriLocation u p \<longrightarrow>
      elements ?t ! 0 = UriLocation u p)" by blast
  then have "elements ?t ! 0 = UriLocation ''/a'' (1, 1)" by (simp add: elements_nth)
  with p ne same ic show ?thesis by blast
qed

text \<open>
  C7 as stated fails on a stack that already holds an editor location of the editor: after
  \<^verbatim>\<open>push\<close> of a location of editor 1, saved at \<^verbatim>\<open>/a\<close>, the two calls leave a uri location
  where the editor location was.
\<close>

theorem editorOpened_editorClosed_counterexample:
  "saved_at ''/a'' 1 = Some ''/a'' \<and>
   push (Given 1, EditorLocation 1 (0, 0)) new_NavigationStack =
     Inr \<lparr>slots = [(Given 1, EditorLocation 1 (0, 0))], index = 0, changes = 1, created = 0\<rparr> \<and>
   elements \<lparr>slots = [(Given 1, EditorLocation 1 (0, 0))], index = 0, changes = 1, created = 0\<rparr> =
     [EditorLocation 1 (0, 0)] \<and>
   editorClosed (saved_at ''/a'') 1 (editorOpened (saved_at ''/a'') 1
       \<lparr>slots = [(Given 1, EditorLocation 1 (0, 0))], index = 0, changes = 1, created = 0\<rparr>) =
     \<lparr>slots = [(Created 0, UriLocation ''/a'' (0, 0))], index = 0, changes = 1, created = 1\<rparr> \<and>
   elements (editorClosed (saved_at ''/a'') 1 (editorOpened (saved_at ''/a'') 1
       \<lparr>slots = [(Given 1, EditorLocation 1 (0, 0))], index = 0, changes = 1, created = 0\<rparr>)) =
     [UriLocation ''/a'' (0, 0)] \<and>
   elements (editorClosed (saved_at ''/a'') 1 (editorOpened (saved_at ''/a'') 1
       \<lparr>slots = [(Given 1, EditorLocation 1 (0, 0))], index = 0, changes = 1, created = 0\<rparr>)) \<noteq>
     elements \<lparr>slots = [(Given 1, EditorLocation 1 (0, 0))], index = 0, changes = 1, created = 0\<rparr>"
  by (simp add: nav_defs)

text \<open>
  C8, as the code has it. When \<^verbatim>\<open>filter\<close> rejects every element the array is empty and
  the index is \<open>-1\<close>, the index of a new stack: \<^verbatim>\<open>Math.min(Math.max(newIndex, 0), length - 1)\<close>
  is \<open>-1\<close> when the length is 0.
\<close>

theorem filter_nav_all_rejected:
  "\<forall>location \<in> set (elements s). \<not> predicate location \<Longrightarrow>
   elements (filter_nav predicate s) = [] \<and>
   index (filter_nav predicate s) = - 1 \<and>
   index (filter_nav predicate s) = index new_NavigationStack \<and>
   \<not> hasCurrent (filter_nav predicate s)"
proof -
  assume "\<forall>location \<in> set (elements s). \<not> predicate location"
  then have "filter (\<lambda>x. predicate (snd x)) (slots s) = []"
    by (simp add: filter_empty_conv elements_def)
  then show ?thesis
    by (simp add: filter_nav_eq new_NavigationStack_def hasCurrent_def isEmpty_def)
qed

theorem filter_nav_all_rejected_witness:
  "elements (filter_nav reject_all
      \<lparr>slots = [(Given 1, EditorLocation 1 (0, 0)), (Created 0, UriLocation ''/a'' (1, 1))],
       index = 1, changes = 2, created = 1\<rparr>) = [] \<and>
   index (filter_nav reject_all
      \<lparr>slots = [(Given 1, EditorLocation 1 (0, 0)), (Created 0, UriLocation ''/a'' (1, 1))],
       index = 1, changes = 2, created = 1\<rparr>) = - 1"
proof -
  let ?s = "\<lparr>slots = [(Given 1, EditorLocation 1 (0, 0)), (Created 0, UriLocation ''/a'' (1, 1))],
       index = 1, changes = 2, created = 1\<rparr>"
  have "\<forall>location \<in> set (elements ?s). \<not> reject_all location" by (simp add: reject_all_def)
  from filter_nav_all_rejected [OF this] show ?thesis by blast
qed

text \<open>
  C8 as stated fails: on the stack holding one location, at index 0, a filter that rejects
  it leaves index \<open>-1\<close>, not 0; so does \<^verbatim>\<open>editorClosed\<close> of the editor of that location
  when the editor has no path.
\<close>

theorem filter_nav_empty_counterexample:
  "elements (filter_nav reject_all
      \<lparr>slots = [(Given 1, EditorLocation 1 (0, 0))], index = 0, changes = 1, created = 0\<rparr>) = [] \<and>
   index (filter_nav reject_all
      \<lparr>slots = [(Given 1, EditorLocation 1 (0, 0))], index = 0, changes = 1, created = 0\<rparr>) = - 1 \<and>
   index (filter_nav reject_all
      \<lparr>slots = [(Given 1, EditorLocation 1 (0, 0))], index = 0, changes = 1, created = 0\<rparr>) \<noteq> 0 \<and>
   editorClosed unsaved 1
      \<lparr>slots = [(Given 1, EditorLocation 1 (0, 0))], index = 0, changes = 1, created = 0\<rparr> =
     \<lparr>slots = [], index = - 1, changes = 2, created = 0\<rparr>"
  by (simp add: nav_defs)

end
